theory Spec2Isabelle
  imports Main "HOL-Library.Multiset"
begin

section \<open>The payload type\<close>

text \<open>
  \<open>Tree<T>\<close> is a template over a payload type \<open>T\<close> that must offer a default
  constructor, the stream operators \<open><<\<close> and \<open>>>\<close> and \<open>==\<close> (the three
  \<open>static_assert\<close>s of the class). The model takes these as a record of operations.
  \<open>T_in s x\<close> is \<open>stream >> x\<close> on a stream holding the text \<open>s\<close>: it returns the
  target after the extraction and whether the stream is still good.
  \<open>T_is_string\<close> is the compile-time test \<open>std::is_same<T, std::string>\<close> of
  \<open>deserialize\<close>: for \<open>std::string\<close> it holds the conversion of the rest of the line
  into the payload (the identity), for every other type it is \<open>None\<close>.
\<close>

record 'a payload =
  T_default :: 'a
  T_out :: "'a \<Rightarrow> string"
  T_in :: "string \<Rightarrow> 'a \<Rightarrow> 'a \<times> bool"
  T_eq :: "'a \<Rightarrow> 'a \<Rightarrow> bool"
  T_is_string :: "(string \<Rightarrow> 'a) option"

text \<open>
  The instance \<open>T = std::string\<close>. \<open>operator>>\<close> on a string skips leading
  white space and reads up to the next white space into the target. When nothing but
  white space is left on the stream, it sets the fail bit and leaves the target as it
  was.
\<close>

definition isspace :: "char \<Rightarrow> bool" where
  "isspace c = (c \<in> set [CHR '' '', CHR 0x09, CHR 0x0A, CHR 0x0B, CHR 0x0C, CHR 0x0D])"

definition string_in :: "string \<Rightarrow> string \<Rightarrow> string \<times> bool" where
  "string_in s x =
     (let w = takeWhile (\<lambda>c. \<not> isspace c) (dropWhile isspace s)
      in if w = [] then (x, False) else (w, True))"

definition string_payload :: "string payload" where
  "string_payload =
     \<lparr>T_default = [], T_out = (\<lambda>s. s), T_in = string_in, T_eq = (=),
      T_is_string = Some (\<lambda>s. s)\<rparr>"

section \<open>Errors\<close>

text \<open>
  The source throws \<open>std::logic_error\<close> and \<open>std::invalid_argument\<close> with a message.
  The constructors name the messages: "The root node has already been set"
  (\<open>AlreadyHasRoot\<close>), "... does not exist" (\<open>NodeNotFound\<close>), "The root node cannot
  be removed" (\<open>CannotRemoveRoot\<close>), "invalid line format" (\<open>MalformedLine\<close>), "unable
  to parse value" (\<open>UnparsablePayload\<close>), "too many / Too few end-of-children tokens"
  (\<open>UnbalancedMarkers\<close>) and "Type T has one or more of: an incompatible ..."
  (\<open>IncompatiblePayloadType\<close>).
  Two more constructors stand for undefined behaviour of the C++ code, so that it is a
  visible branch of the model: following a pointer to a node that is not alive
  (\<open>DanglingPointer\<close>) and \<open>top()\<close> on an empty \<open>std::stack\<close> (\<open>EmptyStackTop\<close>).
\<close>

datatype error =
    AlreadyHasRoot
  | NodeNotFound
  | CannotRemoveRoot
  | MalformedLine
  | UnparsablePayload
  | UnbalancedMarkers
  | IncompatiblePayloadType
  | DanglingPointer
  | EmptyStackTop

section \<open>Nodes and trees\<close>

text \<open>
  A \<open>Node<T>\<close> owns its children through \<open>std::vector<std::unique_ptr<Node>>\<close>, so the
  owned nodes form a datatype. The raw pointers of the source (\<open>parent\<close>, the values of
  \<open>nodeMap\<close>) are addresses: every node carries its own address \<open>addr\<close>, and a pointer
  is followed by looking the address up among the live nodes. The fields are those of
  the class, in its order: \<open>value\<close> (here \<open>val\<close>), \<open>parent\<close>, \<open>children\<close>, \<open>ID\<close>.
  \<open>ID\<close> and \<open>nextID\<close> are C++ \<open>int\<close>s. The only arithmetic on them is \<open>nextID++\<close>.
  The operations below count in unbounded integers, which is what the code does as
  long as fewer than \<open>2^31\<close> ids have been given out; the subsection on the counter
  at 32 bits gives the operations with the wrap-around of the machine integer.
\<close>

datatype 'a node =
  Node (addr: nat) (val: 'a) (parent: "nat option") (children: "'a node list") (ID: int)

record 'a Tree =
  root :: "'a node option"
  nodeMap :: "int \<rightharpoonup> nat"
  nextID :: int

text \<open>All nodes owned by a node, itself first, then its children's from left to right.\<close>

fun nodes :: "'a node \<Rightarrow> 'a node list" where
  "nodes (Node a v p cs i) = Node a v p cs i # concat (map nodes cs)"

definition live :: "'a Tree \<Rightarrow> 'a node list" where
  "live t = (case root t of None \<Rightarrow> [] | Some r \<Rightarrow> nodes r)"

text \<open>Following a pointer: the live node at that address, if any.\<close>

definition deref :: "'a Tree \<Rightarrow> nat \<Rightarrow> 'a node option" where
  "deref t a = find (\<lambda>n. addr n = a) (live t)"

text \<open>Writing through a pointer: the node at address \<open>a\<close> is replaced by \<open>f\<close> of it.\<close>

fun modify :: "nat \<Rightarrow> ('a node \<Rightarrow> 'a node) \<Rightarrow> 'a node \<Rightarrow> 'a node" where
  "modify a f (Node b v p cs i) =
     (if b = a then f (Node b v p cs i) else Node b v p (map (modify a f) cs) i)"

text \<open>
  \<open>new Node<T>(...)\<close> returns an address that no live node has. The model takes the
  least address above all live ones (so the address of a released node can be given
  out again).
\<close>

definition new_addr :: "'a Tree \<Rightarrow> nat" where
  "new_addr t = (case live t of [] \<Rightarrow> 0 | _ \<Rightarrow> Suc (foldr max (map addr (live t)) 0))"

subsection \<open>assignIDs\<close>

text \<open>
  \<open>assignIDs\<close> numbers a subtree in pre-order from \<open>nextID\<close> and registers every node in
  \<open>nodeMap\<close>. The state it changes, \<open>(nodeMap, nextID)\<close>, is passed through. (The
  \<open>nullptr\<close> guard of the source is never taken: both callers pass a node.)
\<close>

fun assignIDs :: "'a node \<Rightarrow> (int \<rightharpoonup> nat) \<times> int \<Rightarrow> 'a node \<times> (int \<rightharpoonup> nat) \<times> int"
  and assignIDs_children ::
    "'a node list \<Rightarrow> (int \<rightharpoonup> nat) \<times> int \<Rightarrow> 'a node list \<times> (int \<rightharpoonup> nat) \<times> int" where
  "assignIDs (Node a v p cs i) (m, n) =
     (let (cs', s') = assignIDs_children cs (m(n \<mapsto> a), n + 1) in (Node a v p cs' n, s'))"
| "assignIDs_children [] s = ([], s)"
| "assignIDs_children (c # cs) s =
     (let (c', s') = assignIDs c s; (cs', s'') = assignIDs_children cs s' in (c' # cs', s''))"

subsection \<open>Construction\<close>

text \<open>
  \<open>T_compatible_check\<close>: write \<open>T()\<close> to a stream, read it back into a second
  default-constructed value (the state of the stream is not looked at), and throw
  unless \<open>testT == testT2\<close>.
\<close>

definition T_compatible_check :: "'a payload \<Rightarrow> error + unit" where
  "T_compatible_check P =
     (let testT = T_default P;
          testStream = T_out P testT;
          testT2 = fst (T_in P testStream (T_default P));
          t_compatible = T_eq P testT testT2
      in if \<not> t_compatible then Inl IncompatiblePayloadType else Inr ())"

definition empty_Tree :: "'a Tree" where
  "empty_Tree = \<lparr>root = None, nodeMap = Map.empty, nextID = 0\<rparr>"

definition getRootID :: "'a Tree \<Rightarrow> int" where
  "getRootID t = (case root t of Some r \<Rightarrow> ID r | None \<Rightarrow> - 1)"

text \<open>
  The mutating operations return their result (or the exception thrown) together with
  the object after the call.
\<close>

definition setRoot :: "'a \<Rightarrow> 'a Tree \<Rightarrow> (error + int) \<times> 'a Tree" where
  "setRoot v t =
     (case root t of
        Some r \<Rightarrow> (Inl AlreadyHasRoot, t)
      | None \<Rightarrow>
          (let rootNode = Node (new_addr t) v None [] 0;
               (r, m, n) = assignIDs rootNode (nodeMap t, nextID t)
           in (Inr (ID r), t\<lparr>root := Some r, nodeMap := m, nextID := n\<rparr>)))"

text \<open>The three constructors: \<open>Tree()\<close>, \<open>Tree(const T&)\<close> and \<open>Tree(T&&)\<close>.\<close>

definition Tree_empty :: "'a payload \<Rightarrow> error + 'a Tree" where
  "Tree_empty P =
     (case T_compatible_check P of Inl e \<Rightarrow> Inl e | Inr _ \<Rightarrow> Inr empty_Tree)"

definition Tree_copy :: "'a payload \<Rightarrow> 'a \<Rightarrow> error + 'a Tree" where
  "Tree_copy P v =
     (case T_compatible_check P of
        Inl e \<Rightarrow> Inl e
      | Inr _ \<Rightarrow>
          (case setRoot v empty_Tree of (Inl e, _) \<Rightarrow> Inl e | (Inr _, t) \<Rightarrow> Inr t))"

definition Tree_move :: "'a payload \<Rightarrow> 'a \<Rightarrow> error + 'a Tree" where
  "Tree_move P v =
     (case T_compatible_check P of
        Inl e \<Rightarrow> Inl e
      | Inr _ \<Rightarrow>
          (case setRoot v empty_Tree of (Inl e, _) \<Rightarrow> Inl e | (Inr _, t) \<Rightarrow> Inr t))"

subsection \<open>appendNode and removeNode\<close>

text \<open>\<open>children.push_back(c)\<close> on a node.\<close>

fun push_child :: "'a node \<Rightarrow> 'a node \<Rightarrow> 'a node" where
  "push_child c (Node a v p cs i) = Node a v p (cs @ [c]) i"

definition appendNode :: "int \<Rightarrow> 'a \<Rightarrow> 'a Tree \<Rightarrow> (error + int) \<times> 'a Tree" where
  "appendNode parentID v t =
     (case nodeMap t parentID of
        None \<Rightarrow> (Inl NodeNotFound, t)
      | Some parentNode \<Rightarrow>
          (case deref t parentNode of
             None \<Rightarrow> (Inl DanglingPointer, t)
           | Some _ \<Rightarrow>
               (let child = Node (new_addr t) v (Some parentNode) [] 0;
                    (c, m, n) = assignIDs child (nodeMap t, nextID t)
                in (Inr (ID c),
                    t\<lparr>root := map_option (modify parentNode (push_child c)) (root t),
                      nodeMap := m, nextID := n\<rparr>))))"

text \<open>
  The lambda \<open>cleanupSubtree\<close>: the children first, then \<open>nodeMap.erase(node->ID)\<close>.
\<close>

fun cleanupSubtree :: "'a node \<Rightarrow> (int \<rightharpoonup> nat) \<Rightarrow> (int \<rightharpoonup> nat)" where
  "cleanupSubtree (Node a v p cs i) m = (foldl (\<lambda>m c. cleanupSubtree c m) m cs)(i := None)"

text \<open>
  \<open>siblings.erase(std::remove_if(..., child.get() == nodeToRemove), ...)\<close>: the children
  at another address are kept, in order.
\<close>

fun erase_child :: "nat \<Rightarrow> 'a node \<Rightarrow> 'a node" where
  "erase_child x (Node a v p cs i) = Node a v p (filter (\<lambda>c. addr c \<noteq> x) cs) i"

definition removeNode :: "int \<Rightarrow> 'a Tree \<Rightarrow> (error + unit) \<times> 'a Tree" where
  "removeNode nodeID t =
     (if nodeID = getRootID t then (Inl CannotRemoveRoot, t)
      else
        (case nodeMap t nodeID of
           None \<Rightarrow> (Inl NodeNotFound, t)
         | Some nodeToRemove \<Rightarrow>
             (case deref t nodeToRemove of
                None \<Rightarrow> (Inl DanglingPointer, t)
              | Some nd \<Rightarrow>
                  (let m = cleanupSubtree nd (nodeMap t) in
                   (case parent nd of
                      None \<Rightarrow> (Inr (), t\<lparr>nodeMap := m\<rparr>)
                    | Some pa \<Rightarrow>
                        (case deref t pa of
                           None \<Rightarrow> (Inl DanglingPointer, t\<lparr>nodeMap := m\<rparr>)
                         | Some _ \<Rightarrow>
                             (Inr (),
                              t\<lparr>root := map_option (modify pa (erase_child nodeToRemove)) (root t),
                                nodeMap := m\<rparr>)))))))"

subsection \<open>Read access\<close>

definition getChildrenIDs :: "int \<Rightarrow> 'a Tree \<Rightarrow> error + int list" where
  "getChildrenIDs nodeID t =
     (case nodeMap t nodeID of
        None \<Rightarrow> Inl NodeNotFound
      | Some a \<Rightarrow>
          (case deref t a of
             None \<Rightarrow> Inl DanglingPointer
           | Some n \<Rightarrow> Inr (map ID (children n))))"

definition getValue :: "int \<Rightarrow> 'a Tree \<Rightarrow> error + 'a" where
  "getValue nodeID t =
     (case nodeMap t nodeID of
        None \<Rightarrow> Inl NodeNotFound
      | Some a \<Rightarrow>
          (case deref t a of
             None \<Rightarrow> Inl DanglingPointer
           | Some n \<Rightarrow> Inr (val n)))"

text \<open>\<open>operator[]\<close>.\<close>

definition subscript :: "'a Tree \<Rightarrow> int \<Rightarrow> error + 'a" where
  "subscript t nodeID =
     (case nodeMap t nodeID of
        None \<Rightarrow> Inl NodeNotFound
      | Some a \<Rightarrow>
          (case deref t a of
             None \<Rightarrow> Inl DanglingPointer
           | Some n \<Rightarrow> Inr (val n)))"

subsection \<open>The counter at 32 bits\<close>

text \<open>
  \<open>nextID\<close> is an \<open>int\<close> of 32 bits, and nothing in the class bounds the number of
  \<open>nextID++\<close>. At \<open>INT_MAX\<close> the increment overflows: undefined behaviour by the
  standard, and in the compiled code the two's complement wrap-around to \<open>INT_MIN\<close>,
  so that the counter is back at 0 after \<open>2^32\<close> increments. \<open>int32\<close> is that
  wrap-around, and \<open>assignIDs32\<close>, \<open>setRoot32\<close> and \<open>appendNode32\<close> are the three
  functions that count, line by line as above, with \<open>nextID++\<close> at 32 bits.
  (\<open>removeNode\<close> and the accessors do no arithmetic.)
\<close>

definition int32 :: "int \<Rightarrow> int" where
  "int32 x = (x + 2147483648) mod 4294967296 - 2147483648"

fun assignIDs32 :: "'a node \<Rightarrow> (int \<rightharpoonup> nat) \<times> int \<Rightarrow> 'a node \<times> (int \<rightharpoonup> nat) \<times> int"
  and assignIDs32_children ::
    "'a node list \<Rightarrow> (int \<rightharpoonup> nat) \<times> int \<Rightarrow> 'a node list \<times> (int \<rightharpoonup> nat) \<times> int" where
  "assignIDs32 (Node a v p cs i) (m, n) =
     (let (cs', s') = assignIDs32_children cs (m(n \<mapsto> a), int32 (n + 1))
      in (Node a v p cs' n, s'))"
| "assignIDs32_children [] s = ([], s)"
| "assignIDs32_children (c # cs) s =
     (let (c', s') = assignIDs32 c s; (cs', s'') = assignIDs32_children cs s'
      in (c' # cs', s''))"

definition setRoot32 :: "'a \<Rightarrow> 'a Tree \<Rightarrow> (error + int) \<times> 'a Tree" where
  "setRoot32 v t =
     (case root t of
        Some r \<Rightarrow> (Inl AlreadyHasRoot, t)
      | None \<Rightarrow>
          (let rootNode = Node (new_addr t) v None [] 0;
               (r, m, n) = assignIDs32 rootNode (nodeMap t, nextID t)
           in (Inr (ID r), t\<lparr>root := Some r, nodeMap := m, nextID := n\<rparr>)))"

definition appendNode32 :: "int \<Rightarrow> 'a \<Rightarrow> 'a Tree \<Rightarrow> (error + int) \<times> 'a Tree" where
  "appendNode32 parentID v t =
     (case nodeMap t parentID of
        None \<Rightarrow> (Inl NodeNotFound, t)
      | Some parentNode \<Rightarrow>
          (case deref t parentNode of
             None \<Rightarrow> (Inl DanglingPointer, t)
           | Some _ \<Rightarrow>
               (let child = Node (new_addr t) v (Some parentNode) [] 0;
                    (c, m, n) = assignIDs32 child (nodeMap t, nextID t)
                in (Inr (ID c),
                    t\<lparr>root := map_option (modify parentNode (push_child c)) (root t),
                      nodeMap := m, nextID := n\<rparr>))))"

section \<open>Linearization\<close>

text \<open>
  The stack of \<open>linearize\<close> holds pointers to nodes owned by the tree, or \<open>nullptr\<close>
  (here \<open>None\<close>) for an end-of-children token; the head of the list is the top of the
  stack. A popped node pushes \<open>nullptr\<close> and then its children from the last to the
  first.
\<close>

definition stack_weight :: "'a node option \<Rightarrow> nat" where
  "stack_weight x = (case x of None \<Rightarrow> 1 | Some n \<Rightarrow> 2 * length (nodes n))"

function linearize_loop :: "'a node option list \<Rightarrow> 'a option list \<Rightarrow> 'a option list" where
  "linearize_loop [] linearized = linearized"
| "linearize_loop (Some current # stack) linearized =
     linearize_loop
       (foldl (\<lambda>s c. Some c # s) (None # stack) (rev (children current)))
       (linearized @ [Some (val current)])"
| "linearize_loop (None # stack) linearized = linearize_loop stack (linearized @ [None])"
  by pat_completeness auto

lemma length_concat_map_rev:
  "length (concat (map f (rev xs))) = length (concat (map f xs))"
  by (induction xs) simp_all

lemma stack_weight_push:
  "sum_list (map stack_weight (foldl (\<lambda>s c. Some c # s) st cs))
     = sum_list (map stack_weight st) + 2 * length (concat (map nodes cs))"
  by (induction cs arbitrary: st) (simp_all add: stack_weight_def)

termination linearize_loop
proof (relation "measure (\<lambda>(stack, _). sum_list (map stack_weight stack))")
  fix current :: "'a node" and stack :: "'a node option list" and linearized :: "'a option list"
  show "((foldl (\<lambda>s c. Some c # s) (None # stack) (rev (children current)),
          linearized @ [Some (val current)]),
         (Some current # stack, linearized))
        \<in> measure (\<lambda>(stack, _). sum_list (map stack_weight stack))"
    by (cases current) (simp add: stack_weight_push stack_weight_def length_concat_map_rev)
qed (simp_all add: stack_weight_def)

definition linearize :: "'a Tree \<Rightarrow> 'a option list" where
  "linearize t = linearize_loop (case root t of Some r \<Rightarrow> [Some r] | None \<Rightarrow> []) []"

section \<open>Serialization\<close>

text \<open>Writing an \<open>int\<close> to a stream: its decimal digits.\<close>

definition digit_char :: "nat \<Rightarrow> char" where
  "digit_char d = char_of (48 + d)"

function decimal :: "nat \<Rightarrow> string" where
  "decimal n = (if n < 10 then [digit_char n] else decimal (n div 10) @ [digit_char (n mod 10)])"
  by pat_completeness auto

termination decimal
  by (relation "measure (\<lambda>n. n)") simp_all

definition show_int :: "int \<Rightarrow> string" where
  "show_int i = (if i < 0 then CHR ''-'' # decimal (nat (- i)) else decimal (nat i))"

text \<open>The loop of \<open>serialize\<close> over the linearized entries; its state is
  \<open>(serialized, nodeCount)\<close>.\<close>

fun serialize_loop :: "'a payload \<Rightarrow> 'a option list \<Rightarrow> string \<times> int \<Rightarrow> string \<times> int" where
  "serialize_loop P [] s = s"
| "serialize_loop P (Some v # rest) (serialized, nodeCount) =
     serialize_loop P rest
       (serialized @ (''['' @ show_int nodeCount @ '']: '' @ T_out P v @ ''\<newline>''),
        nodeCount + 1)"
| "serialize_loop P (None # rest) (serialized, nodeCount) =
     serialize_loop P rest (serialized @ ''[X]\<newline>'', nodeCount)"

definition serialize :: "'a payload \<Rightarrow> 'a Tree \<Rightarrow> string" where
  "serialize P t = fst (serialize_loop P (linearize t) ([], 0))"

section \<open>Deserialization\<close>

text \<open>
  \<open>while (std::getline(ss, line))\<close>: a line ends at the next newline or at the end of
  the text; the loop stops when nothing is left to read.
\<close>

function getlines :: "string \<Rightarrow> string list" where
  "getlines s =
     (if s = [] then []
      else takeWhile (\<lambda>c. c \<noteq> CHR ''\<newline>'') s
             # getlines (drop 1 (dropWhile (\<lambda>c. c \<noteq> CHR ''\<newline>'') s)))"
  by pat_completeness auto

termination getlines
proof (relation "measure length")
  fix s :: string
  assume "s \<noteq> []"
  then have "length (drop 1 (dropWhile (\<lambda>c. c \<noteq> CHR ''\<newline>'') s)) < length s"
    using length_dropWhile_le [of "\<lambda>c. c \<noteq> CHR ''\<newline>''" s] by (cases s) simp_all
  then show "(drop 1 (dropWhile (\<lambda>c. c \<noteq> CHR ''\<newline>'') s), s) \<in> measure length"
    by simp
qed simp

text \<open>\<open>s.find(pat)\<close>: the first position where \<open>pat\<close> occurs in \<open>s\<close>, \<open>None\<close> for
  \<open>npos\<close>.\<close>

fun find_str :: "string \<Rightarrow> string \<Rightarrow> nat option" where
  "find_str [] pat = (if pat = [] then Some 0 else None)"
| "find_str (c # s) pat =
     (if take (length pat) (c # s) = pat then Some 0 else map_option Suc (find_str s pat))"

text \<open>
  One turn of the parsing loop of \<open>deserialize\<close> on a line. The state is
  \<open>(linearized, nodeCount, eocTokenCount)\<close>; a \<open>throw\<close> leaves the loop with the
  entries pushed so far. (An end-of-children token is pushed before the counts are
  compared.)
\<close>

definition deserialize_line ::
  "'a payload \<Rightarrow> string \<Rightarrow> 'a option list \<times> int \<times> int
     \<Rightarrow> ('a option list \<times> error) + ('a option list \<times> int \<times> int)" where
  "deserialize_line P line s =
     (case s of (linearized, nodeCount, eocTokenCount) \<Rightarrow>
        if line = ''[X]'' then
          (if eocTokenCount + 1 > nodeCount then Inl (linearized @ [None], UnbalancedMarkers)
           else Inr (linearized @ [None], nodeCount, eocTokenCount + 1))
        else if find_str line ''['' = Some 0 \<and> find_str line '']: '' \<noteq> None then
          (case find_str line '']: '' of
             None \<Rightarrow> Inl (linearized, MalformedLine)
           | Some pos \<Rightarrow>
               (let valuePart = drop (pos + 3) line in
                (case T_is_string P of
                   Some conv \<Rightarrow>
                     Inr (linearized @ [Some (conv valuePart)], nodeCount + 1, eocTokenCount)
                 | None \<Rightarrow>
                     (case T_in P valuePart (T_default P) of
                        (v, good) \<Rightarrow>
                          if good then Inr (linearized @ [Some v], nodeCount + 1, eocTokenCount)
                          else Inl (linearized, UnparsablePayload)))))
        else Inl (linearized, MalformedLine))"

text \<open>
  The loop over the lines, with the test after the loop as its last step. It returns
  the entries read when it stopped and the exception thrown inside the \<open>try\<close> block,
  if any.
\<close>

fun deserialize_loop ::
  "'a payload \<Rightarrow> string list \<Rightarrow> 'a option list \<times> int \<times> int \<Rightarrow> 'a option list \<times> error option" where
  "deserialize_loop P [] (linearized, nodeCount, eocTokenCount) =
     (if nodeCount \<noteq> eocTokenCount then (linearized, Some UnbalancedMarkers)
      else (linearized, None))"
| "deserialize_loop P (line # rest) s =
     (case deserialize_line P line s of
        Inl (linearized, e) \<Rightarrow> (linearized, Some e)
      | Inr s' \<Rightarrow> deserialize_loop P rest s')"

text \<open>
  \<open>delinearize\<close>: the stack \<open>parentIDs\<close> has its top at the head of the list.
  \<open>parentIDs.top()\<close> on an empty stack is undefined in C++ (\<open>EmptyStackTop\<close>).
  \<open>delinearize_step\<close> is the body of the loop for one entry; an exception of
  \<open>setRoot\<close> or \<open>appendNode\<close> leaves the function.
\<close>

definition delinearize_step ::
  "'a option \<Rightarrow> 'a Tree \<times> int list \<Rightarrow> error + 'a Tree \<times> int list" where
  "delinearize_step optValue s =
     (case s of (tree, parentIDs) \<Rightarrow>
        (case optValue of
           Some v \<Rightarrow>
             if getRootID tree = - 1 then
               (case setRoot v tree of
                  (Inl e, _) \<Rightarrow> Inl e
                | (Inr _, tree') \<Rightarrow> Inr (tree', getRootID tree' # parentIDs))
             else
               (case parentIDs of
                  [] \<Rightarrow> Inl EmptyStackTop
                | topID # _ \<Rightarrow>
                    (case appendNode topID v tree of
                       (Inl e, _) \<Rightarrow> Inl e
                     | (Inr childID, tree') \<Rightarrow> Inr (tree', childID # parentIDs)))
         | None \<Rightarrow>
             if parentIDs \<noteq> [] then Inr (tree, tl parentIDs) else Inr (tree, parentIDs)))"

fun delinearize_loop :: "'a option list \<Rightarrow> 'a Tree \<times> int list \<Rightarrow> error + 'a Tree" where
  "delinearize_loop [] s = Inr (fst s)"
| "delinearize_loop (optValue # rest) s =
     (case delinearize_step optValue s of
        Inl e \<Rightarrow> Inl e
      | Inr s' \<Rightarrow> delinearize_loop rest s')"

definition delinearize :: "'a payload \<Rightarrow> 'a option list \<Rightarrow> error + 'a Tree" where
  "delinearize P linearized =
     (case Tree_empty P of
        Inl e \<Rightarrow> Inl e
      | Inr tree \<Rightarrow> delinearize_loop linearized (tree, []))"

text \<open>
  \<open>deserialize\<close> catches every exception of its parsing loop, writes the message to
  \<open>std::cerr\<close> and goes on to \<open>return delinearize(linearized)\<close>. The first component
  is what was written to \<open>std::cerr\<close> (\<open>None\<close>: nothing); the second is what the caller
  gets: the tree, or the exception that left the function.
\<close>

definition deserialize :: "'a payload \<Rightarrow> string \<Rightarrow> error option \<times> (error + 'a Tree)" where
  "deserialize P serialized =
     (let (linearized, err) = deserialize_loop P (getlines serialized) ([], 0, 0)
      in (err, delinearize P linearized))"

section \<open>Definitions used in the statements\<close>

text \<open>
  The pre-order flattening as the specification describes it: a node contributes its
  value, then the flattenings of its children from left to right, then its own
  end-of-children marker (\<open>None\<close>). So the marker of a node comes after everything its
  descendants contribute and before anything a later sibling contributes.
\<close>

fun flatten :: "'a node \<Rightarrow> 'a option list" where
  "flatten (Node a v p cs i) = Some v # concat (map flatten cs) @ [None]"


text \<open>
  Sequences of calls on a tree object. A call that throws leaves the object to the
  caller as the operation left it; the next call goes on from there.
\<close>

datatype 'a call = SetRoot 'a | AppendNode int 'a | RemoveNode int

fun perform :: "'a Tree \<Rightarrow> 'a call \<Rightarrow> 'a Tree" where
  "perform t (SetRoot v) = snd (setRoot v t)"
| "perform t (AppendNode parentID v) = snd (appendNode parentID v t)"
| "perform t (RemoveNode nodeID) = snd (removeNode nodeID t)"

definition run :: "'a call list \<Rightarrow> 'a Tree" where
  "run calls = foldl perform empty_Tree calls"

text \<open>
  The scenario of the specification: root "A", children "B", "C", "D" under it,
  children "E", "F" under "B", built through the operations of the class over
  \<open>T = std::string\<close>. The ids are given out in the order of the calls: "A" is 0,
  "B" is 1.
\<close>

definition scenario_calls :: "string call list" where
  "scenario_calls =
     [SetRoot ''A'', AppendNode 0 ''B'', AppendNode 0 ''C'', AppendNode 0 ''D'',
      AppendNode 1 ''E'', AppendNode 1 ''F'']"

definition scenario_tree :: "string Tree" where
  "scenario_tree = run scenario_calls"

text \<open>The same sequences of calls with the counter at 32 bits.\<close>

fun perform32 :: "'a Tree \<Rightarrow> 'a call \<Rightarrow> 'a Tree" where
  "perform32 t (SetRoot v) = snd (setRoot32 v t)"
| "perform32 t (AppendNode parentID v) = snd (appendNode32 parentID v t)"
| "perform32 t (RemoveNode nodeID) = snd (removeNode nodeID t)"

definition run32 :: "'a call list \<Rightarrow> 'a Tree" where
  "run32 calls = foldl perform32 empty_Tree calls"

text \<open>
  A long run on a small tree. \<open>churn n j\<close> is \<open>n\<close> times: append a child "x" under the
  node 0 and remove it again, where the child of the first turn gets the \<open>j\<close>-th id
  that the counter gives out. \<open>wrap_calls\<close> sets the root "R" (id 0), appends and
  removes a child \<open>2^32 - 1\<close> times, and then appends the child "X". At no moment
  are there more than two nodes.
\<close>

fun churn :: "nat \<Rightarrow> nat \<Rightarrow> string call list" where
  "churn 0 j = []"
| "churn (Suc n) j = AppendNode 0 ''x'' # RemoveNode (int32 (int j)) # churn n (Suc j)"

definition wrap_prefix :: "string call list" where
  "wrap_prefix = SetRoot ''R'' # churn 4294967295 1"

definition wrap_calls :: "string call list" where
  "wrap_calls = wrap_prefix @ [AppendNode 0 ''X'']"

text \<open>
  The tree object that holds the root "R" alone, at address 0 and with the id 0, after
  the counter has given out \<open>j\<close> ids.
\<close>

definition root_only :: "nat \<Rightarrow> string Tree" where
  "root_only j =
     \<lparr>root = Some (Node 0 ''R'' None [] 0), nodeMap = [0 \<mapsto> 0], nextID = int32 (int j)\<rparr>"

text \<open>The ids of the subtree below the node with a given id (none for an unknown id).\<close>

definition subtree_ids :: "'a Tree \<Rightarrow> int \<Rightarrow> int list" where
  "subtree_ids t nodeID =
     (case nodeMap t nodeID of
        None \<Rightarrow> []
      | Some x \<Rightarrow> (case deref t x of None \<Rightarrow> [] | Some nd \<Rightarrow> map ID (nodes nd)))"

text \<open>
  The parent pointers are right: the root has none, and every child points to the
  node that owns it.
\<close>

fun parents_ok :: "nat option \<Rightarrow> 'a node \<Rightarrow> bool" where
  "parents_ok q (Node a v p cs i) = (p = q \<and> (\<forall>c \<in> set cs. parents_ok (Some a) c))"

text \<open>
  The invariant of the class: the live nodes have pairwise different addresses and
  pairwise different ids, \<open>nodeMap\<close> holds exactly the pairs (id, address) of the live
  nodes, every id in use is below \<open>nextID\<close>, and the parent pointers are right.
\<close>

definition Tree_inv :: "'a Tree \<Rightarrow> bool" where
  "Tree_inv t =
     (distinct (map addr (live t)) \<and> distinct (map ID (live t))
      \<and> (\<forall>i a. (nodeMap t i = Some a) = ((i, a) \<in> set (map (\<lambda>n. (ID n, addr n)) (live t))))
      \<and> (\<forall>n \<in> set (live t). ID n < nextID t)
      \<and> (case root t of None \<Rightarrow> True | Some r \<Rightarrow> parents_ok None r))"

text \<open>What the accessors show of a node: its id, its value and the ids of its children.\<close>

definition entry :: "'a node \<Rightarrow> int \<times> 'a \<times> int list" where
  "entry n = (ID n, val n, map ID (children n))"


definition reads_back :: "'a payload \<Rightarrow> 'a \<Rightarrow> bool" where
  "reads_back P v =
     (case T_is_string P of
        Some conv \<Rightarrow> conv (T_out P v) = v
      | None \<Rightarrow> T_in P (T_out P v) (T_default P) = (v, True))"







section \<open>Construction, accessors and the root sentinel\<close>

text \<open>
  C8. Each of the three constructors that the class declares runs
  \<open>T_compatible_check\<close> first: it writes a default-constructed payload, reads it
  back and compares the two with \<open>==\<close>.
  Construction fails with \<open>IncompatiblePayloadType\<close> exactly when the value read back
  is not equal to the original, and yields a tree exactly when it is.
\<close>

theorem constructors_check_roundtrip:
  "(Tree_empty P = Inl IncompatiblePayloadType)
     = (\<not> T_eq P (T_default P) (fst (T_in P (T_out P (T_default P)) (T_default P))))
   \<and> (\<exists>t. Tree_empty P = Inr t)
     = T_eq P (T_default P) (fst (T_in P (T_out P (T_default P)) (T_default P)))
   \<and> (Tree_copy P v = Inl IncompatiblePayloadType)
     = (\<not> T_eq P (T_default P) (fst (T_in P (T_out P (T_default P)) (T_default P))))
   \<and> (\<exists>t. Tree_copy P v = Inr t)
     = T_eq P (T_default P) (fst (T_in P (T_out P (T_default P)) (T_default P)))
   \<and> (Tree_move P v = Inl IncompatiblePayloadType)
     = (\<not> T_eq P (T_default P) (fst (T_in P (T_out P (T_default P)) (T_default P))))
   \<and> (\<exists>t. Tree_move P v = Inr t)
     = T_eq P (T_default P) (fst (T_in P (T_out P (T_default P)) (T_default P)))"
  by (simp add: Tree_empty_def Tree_copy_def Tree_move_def T_compatible_check_def
      setRoot_def empty_Tree_def Let_def)

text \<open>
  C9. On a tree without a root \<open>getRootID\<close> is the sentinel \<open>-1\<close>, and \<open>removeNode\<close>
  compares its argument with it before it looks the argument up in \<open>nodeMap\<close>: removing
  \<open>-1\<close> throws "The root node cannot be removed" and leaves the tree as it was.
\<close>

theorem removeNode_sentinel_without_root:
  "root t = None \<Longrightarrow>
     getRootID t = - 1 \<and> removeNode (- 1) t = (Inl CannotRemoveRoot, t)"
  by (simp add: removeNode_def getRootID_def)

text \<open>
  The empty tree is such a tree, and \<open>-1\<close> is not in its \<open>nodeMap\<close>: the lookup, had it
  come first, would have thrown "does not exist".
\<close>

theorem removeNode_sentinel_without_root_witness:
  "root (empty_Tree :: string Tree) = None
   \<and> nodeMap (empty_Tree :: string Tree) (- 1) = None
   \<and> getRootID (empty_Tree :: string Tree) = - 1
   \<and> removeNode (- 1) (empty_Tree :: string Tree) = (Inl CannotRemoveRoot, empty_Tree)"
  using removeNode_sentinel_without_root [of "empty_Tree :: string Tree"]
  by (simp add: empty_Tree_def)

text \<open>
  C10. \<open>operator[]\<close> and \<open>getValue\<close> agree on every tree and every id: for an id
  that is not in \<open>nodeMap\<close> both throw "does not exist", and for an id whose node is
  alive both give the value of that node.
\<close>

theorem subscript_equals_getValue:
  "subscript t nodeID = getValue nodeID t
   \<and> (nodeMap t nodeID = None \<longrightarrow>
        subscript t nodeID = Inl NodeNotFound \<and> getValue nodeID t = Inl NodeNotFound)
   \<and> (\<forall>a n. nodeMap t nodeID = Some a \<and> deref t a = Some n \<longrightarrow>
        subscript t nodeID = Inr (val n) \<and> getValue nodeID t = Inr (val n))"
  by (auto simp: subscript_def getValue_def)

theorem subscript_equals_getValue_witness:
  "subscript scenario_tree 1 = getValue 1 scenario_tree
   \<and> getValue 1 scenario_tree = Inr ''B''
   \<and> subscript scenario_tree 9 = getValue 9 scenario_tree
   \<and> nodeMap scenario_tree 9 = None
   \<and> getValue 9 scenario_tree = Inl NodeNotFound"
proof -
  have live: "nodeMap scenario_tree 1 = Some 1" and dead: "nodeMap scenario_tree 9 = None"
    by code_simp+
  have v: "getValue 1 scenario_tree = Inr ''B''"
    by code_simp
  show ?thesis
    using subscript_equals_getValue [of scenario_tree 1]
      subscript_equals_getValue [of scenario_tree 9] live dead v
    by simp
qed

section \<open>An unbalanced document\<close>

text \<open>
  C2. The document "[0]: A", "[X]", "[X]" has one end-of-children token too many.
  The parsing loop of \<open>deserialize\<close> throws "too many end-of-children tokens" at the
  third line, but the function catches the exception itself, writes the message to
  \<open>std::cerr\<close> and returns the tree built from the three entries read so far: the
  caller gets a tree with the single node "A" and no error.
\<close>

theorem deserialize_extra_marker_yields_tree:
  "fst (deserialize string_payload ''[0]: A\<newline>[X]\<newline>[X]\<newline>'') = Some UnbalancedMarkers
   \<and> map_sum id root (snd (deserialize string_payload ''[0]: A\<newline>[X]\<newline>[X]\<newline>''))
       = Inr (Some (Node 0 ''A'' None [] 0))"
  by code_simp

text \<open>
  The same happens when an end-of-children token is missing at the end. And a text
  with a value line after the root was closed is read without any message when the
  counts agree at its end; \<open>delinearize\<close> then calls \<open>top()\<close> on its empty stack.
\<close>

lemma deserialize_missing_marker_yields_tree:
  "fst (deserialize string_payload ''[0]: A\<newline>'') = Some UnbalancedMarkers
   \<and> map_sum id root (snd (deserialize string_payload ''[0]: A\<newline>''))
       = Inr (Some (Node 0 ''A'' None [] 0))"
  by code_simp

lemma deserialize_second_root_reads_empty_stack:
  "fst (deserialize string_payload ''[0]: A\<newline>[X]\<newline>[1]: B\<newline>[X]\<newline>'') = None
   \<and> map_sum id root
         (snd (deserialize string_payload ''[0]: A\<newline>[X]\<newline>[1]: B\<newline>[X]\<newline>''))
       = Inl EmptyStackTop"
  by code_simp

text \<open>
  No exception of the parsing loop ever leaves \<open>deserialize\<close>: what reaches the caller
  comes from \<open>delinearize\<close> alone.
\<close>

lemma deserialize_result_is_delinearize:
  "snd (deserialize P serialized)
     = delinearize P (fst (deserialize_loop P (getlines serialized) ([], 0, 0)))"
  by (simp add: deserialize_def split: prod.splits)

section \<open>Linearization and serialization\<close>

lemma foldl_push_rev: "foldl (\<lambda>s c. Some c # s) st (rev cs) = map Some cs @ st"
  by (induction cs) simp_all

lemma linearize_loop_flatten:
  "linearize_loop st out
     = out @ concat (map (\<lambda>x. case x of None \<Rightarrow> [None] | Some n \<Rightarrow> flatten n) st)"
proof (induction st out rule: linearize_loop.induct)
  case (1 linearized)
  show ?case by simp
next
  case (2 current stack linearized)
  have "concat (map (\<lambda>x. case x of None \<Rightarrow> [None] | Some n \<Rightarrow> flatten n)
                 (map Some (children current)))
          = concat (map flatten (children current))"
    by (simp add: comp_def)
  with 2 show ?case
    by (cases current) (simp add: foldl_push_rev)
next
  case (3 stack linearized)
  then show ?case by simp
qed

lemma linearize_eq_flatten:
  "linearize t = (case root t of None \<Rightarrow> [] | Some r \<Rightarrow> flatten r)"
  by (simp add: linearize_def linearize_loop_flatten split: option.splits)

lemma length_flatten: "length (flatten n) = 2 * length (nodes n)"
proof (induction n)
  case (Node a v p cs i)
  have "length (concat (map flatten cs)) = 2 * length (concat (map nodes cs))"
    using Node.IH by (induction cs) simp_all
  then show ?case by simp
qed

lemma markers_flatten: "length (filter (\<lambda>e. e = None) (flatten n)) = length (nodes n)"
proof (induction n)
  case (Node a v p cs i)
  have "length (filter (\<lambda>e. e = None) (concat (map flatten cs)))
          = length (concat (map nodes cs))"
    using Node.IH by (induction cs) simp_all
  then show ?case by simp
qed

lemma map_filter_app:
  "List.map_filter f (xs @ ys) = List.map_filter f xs @ List.map_filter f ys"
  by (simp add: List.map_filter_def)

lemma values_flatten: "List.map_filter (\<lambda>e. e) (flatten n) = map val (nodes n)"
proof (induction n)
  case (Node a v p cs i)
  have "List.map_filter (\<lambda>e. e) (concat (map flatten cs)) = map val (concat (map nodes cs))"
    using Node.IH by (induction cs) (simp_all add: map_filter_app)
  then show ?case by (simp add: map_filter_app)
qed

lemma flatten_block:
  "n \<in> set (nodes r) \<Longrightarrow> \<exists>pre post. flatten r = pre @ flatten n @ post"
proof (induction r)
  case (Node a v p cs i)
  show ?case
  proof (cases "n = Node a v p cs i")
    case True
    then have "flatten (Node a v p cs i) = [] @ flatten n @ []"
      by simp
    then show ?thesis by blast
  next
    case False
    with Node.prems obtain c where c: "c \<in> set cs" "n \<in> set (nodes c)"
      by auto
    from Node.IH [OF c] obtain pre post where f: "flatten c = pre @ flatten n @ post"
      by blast
    from c(1) obtain xs ys where "cs = xs @ c # ys"
      by (auto dest: split_list)
    then have "flatten (Node a v p cs i)
                 = (Some v # concat (map flatten xs) @ pre) @ flatten n
                   @ (post @ concat (map flatten ys) @ [None])"
      by (simp add: f)
    then show ?thesis by blast
  qed
qed

text \<open>
  C5. \<open>linearize\<close> (the loop with the explicit stack) computes the pre-order
  flattening \<open>flatten\<close> of the root: every node contributes one value entry and one
  end-of-children marker. What a node and its descendants contribute is one block of
  the sequence, \<open>flatten\<close> of that node: the value first, then the blocks of the
  children from left to right, then the node's own marker. So the marker of a node
  comes after all markers of its descendants and before any entry of a later sibling.
  The values appear in pre-order, there are as many markers as nodes, and a tree of
  \<open>n\<close> nodes gives \<open>2n\<close> entries.
\<close>

theorem linearize_is_preorder_flattening:
  "linearize t = (case root t of None \<Rightarrow> [] | Some r \<Rightarrow> flatten r)
   \<and> (\<forall>n \<in> set (live t). \<exists>pre post. linearize t = pre @ flatten n @ post)
   \<and> List.map_filter (\<lambda>e. e) (linearize t) = map val (live t)
   \<and> length (filter (\<lambda>e. e = None) (linearize t)) = length (live t)
   \<and> length (filter (\<lambda>e. e \<noteq> None) (linearize t)) = length (live t)
   \<and> length (linearize t) = 2 * length (live t)"
proof -
  have "length (filter (\<lambda>e. e \<noteq> None) (flatten r)) = length (nodes r)" for r :: "'a node"
    using sum_length_filter_compl [of "\<lambda>e. e = None" "flatten r"]
    by (simp add: length_flatten markers_flatten)
  moreover have "\<forall>n \<in> set (live t). \<exists>pre post. linearize t = pre @ flatten n @ post"
    by (auto simp: linearize_eq_flatten live_def flatten_block split: option.splits)
  ultimately show ?thesis
    by (simp add: linearize_eq_flatten live_def length_flatten markers_flatten values_flatten
        split: option.splits)
qed

theorem linearize_is_preorder_flattening_witness:
  "length (linearize scenario_tree) = 12
   \<and> List.map_filter (\<lambda>e. e) (linearize scenario_tree) = [''A'', ''B'', ''E'', ''F'', ''C'', ''D'']
   \<and> (\<exists>pre post. linearize scenario_tree
         = pre @ [Some ''B'', Some ''E'', None, Some ''F'', None, None] @ post)"
proof -
  let ?b = "Node 1 ''B'' (Some 0) [Node 4 ''E'' (Some 1) [] 4, Node 5 ''F'' (Some 1) [] 5] 1"
  have b: "?b \<in> set (live scenario_tree)"
    and len: "length (live scenario_tree) = 6"
    and vals: "map val (live scenario_tree) = [''A'', ''B'', ''E'', ''F'', ''C'', ''D'']"
    by code_simp+
  note th = linearize_is_preorder_flattening [of scenario_tree]
  note blk = th [THEN conjunct2, THEN conjunct1, rule_format, OF b]
  note vs = th [THEN conjunct2, THEN conjunct2, THEN conjunct1]
  note ln = th [THEN conjunct2, THEN conjunct2, THEN conjunct2, THEN conjunct2, THEN conjunct2]
  from blk have "\<exists>pre post. linearize scenario_tree
         = pre @ [Some ''B'', Some ''E'', None, Some ''F'', None, None] @ post"
    by simp
  with vs ln show ?thesis
    unfolding len vals by simp
qed






section \<open>The invariant of the class\<close>

lemma self_in_nodes: "n \<in> set (nodes n)"
  by (cases n) simp

lemma find_distinct_key:
  "distinct (map f xs) \<Longrightarrow> x \<in> set xs \<Longrightarrow> find (\<lambda>y. f y = f x) xs = Some x"
  by (induction xs) auto

lemma find_app:
  "find Q (xs @ ys) = (case find Q xs of None \<Rightarrow> find Q ys | Some x \<Rightarrow> Some x)"
  by (induction xs) simp_all

lemma find_SomeD: "find Q xs = Some x \<Longrightarrow> x \<in> set xs \<and> Q x"
  by (induction xs) (auto split: if_splits)

lemma modify_absent: "a \<notin> set (map addr (nodes r)) \<Longrightarrow> modify a f r = r"
proof (induction r)
  case (Node b v p cs i)
  then have "map (modify a f) cs = cs"
    by (intro map_idI) auto
  with Node.prems show ?case by simp
qed

lemma ID_modify: "(\<And>m. ID (f m) = ID m) \<Longrightarrow> ID (modify a f r) = ID r"
  by (cases r) simp

lemma addr_modify: "(\<And>m. addr (f m) = addr m) \<Longrightarrow> addr (modify a f r) = addr r"
  by (cases r) simp

lemma mset_modify_children:
  assumes IH: "\<And>c. c \<in> set cs \<Longrightarrow> distinct (map addr (nodes c)) \<Longrightarrow>
                 find (\<lambda>m. addr m = a) (nodes c) = Some n \<Longrightarrow>
                 mset (map g (nodes (modify a f c))) + mset (map g (nodes n))
                   = mset (map g (nodes c)) + mset (map g (nodes (f n)))"
    and "distinct (map addr (concat (map nodes cs)))"
    and "find (\<lambda>m. addr m = a) (concat (map nodes cs)) = Some n"
  shows "mset (map g (concat (map nodes (map (modify a f) cs)))) + mset (map g (nodes n))
           = mset (map g (concat (map nodes cs))) + mset (map g (nodes (f n)))"
  using assms
proof (induction cs)
  case Nil
  then show ?case by simp
next
  case (Cons c cs)
  show ?case
  proof (cases "find (\<lambda>m. addr m = a) (nodes c)")
    case None
    then have "a \<notin> set (map addr (nodes c))"
      by (auto simp: find_None_iff)
    then have same: "modify a f c = c"
      by (rule modify_absent)
    from None Cons.prems(3) have "find (\<lambda>m. addr m = a) (concat (map nodes cs)) = Some n"
      by (simp add: find_app)
    moreover from Cons.prems(2) have "distinct (map addr (concat (map nodes cs)))"
      by simp
    ultimately have "mset (map g (concat (map nodes (map (modify a f) cs)))) + mset (map g (nodes n))
           = mset (map g (concat (map nodes cs))) + mset (map g (nodes (f n)))"
      using Cons.IH Cons.prems(1) by simp
    then show ?thesis
      by (simp add: same)
  next
    case (Some m)
    with Cons.prems(3) have m: "m = n"
      by (simp add: find_app)
    from Some have "a \<in> set (map addr (nodes c))"
      by (auto dest: find_SomeD)
    with Cons.prems(2) have "\<forall>d \<in> set cs. a \<notin> set (map addr (nodes d))"
      by auto
    then have rest: "map (modify a f) cs = cs"
      by (intro map_idI) (simp add: modify_absent)
    have "mset (map g (nodes (modify a f c))) + mset (map g (nodes n))
            = mset (map g (nodes c)) + mset (map g (nodes (f n)))"
      using Cons.prems(1) [of c] Cons.prems(2) Some m by simp
    then show ?thesis
      by (simp add: rest)
  qed
qed

lemma mset_modify:
  assumes "distinct (map addr (nodes r))"
    and "find (\<lambda>m. addr m = a) (nodes r) = Some n"
    and "\<And>b v p cs i. g (Node b v p (map (modify a f) cs) i) = g (Node b v p cs i)"
  shows "mset (map g (nodes (modify a f r))) + mset (map g (nodes n))
           = mset (map g (nodes r)) + mset (map g (nodes (f n)))"
  using assms(1,2)
proof (induction r)
  case (Node b v p cs i)
  show ?case
  proof (cases "b = a")
    case True
    with Node.prems have "n = Node b v p cs i" by simp
    with True show ?thesis by simp
  next
    case False
    with Node.prems have f: "find (\<lambda>m. addr m = a) (concat (map nodes cs)) = Some n"
      by simp
    from Node.prems have d: "distinct (map addr (concat (map nodes cs)))"
      by simp
    have "mset (map g (concat (map nodes (map (modify a f) cs)))) + mset (map g (nodes n))
           = mset (map g (concat (map nodes cs))) + mset (map g (nodes (f n)))"
      using Node.IH d f by (intro mset_modify_children) auto
    with False show ?thesis
      by (simp add: assms(3))
  qed
qed

lemma le_foldr_max: "x \<in> set xs \<Longrightarrow> x \<le> foldr max xs (0::nat)"
  by (induction xs) auto

lemma new_addr_fresh: "new_addr t \<notin> set (map addr (live t))"
proof
  assume "new_addr t \<in> set (map addr (live t))"
  then have "new_addr t \<le> foldr max (map addr (live t)) 0"
    by (rule le_foldr_max)
  moreover from \<open>new_addr t \<in> set (map addr (live t))\<close> have "live t \<noteq> []"
    by auto
  ultimately show False
    by (simp add: new_addr_def split: list.splits)
qed

lemma mset_push_child:
  assumes "distinct (map addr (nodes r))"
    and "find (\<lambda>m. addr m = a) (nodes r) = Some n"
    and "\<And>b v p cs cs' i. g (Node b v p cs i) = g (Node b v p cs' i)"
  shows "mset (map g (nodes (modify a (push_child c) r)))
           = mset (map g (nodes r)) + mset (map g (nodes c))"
proof -
  have "mset (map g (nodes (modify a (push_child c) r))) + mset (map g (nodes n))
          = mset (map g (nodes r)) + mset (map g (nodes (push_child c n)))"
    using assms(1,2) by (rule mset_modify) (rule assms(3))
  moreover have "mset (map g (nodes (push_child c n)))
                   = mset (map g (nodes n)) + mset (map g (nodes c))"
    using assms(3) [of "addr n" "val n" "parent n" "children n @ [c]" "ID n" "children n"]
    by (cases n) simp
  ultimately show ?thesis
    by simp
qed

lemma parents_ok_modify:
  assumes "parents_ok q r"
    and "\<And>q' m. addr m = a \<Longrightarrow> parents_ok q' m \<Longrightarrow> parents_ok q' (f m)"
  shows "parents_ok q (modify a f r)"
  using assms(1)
proof (induction r arbitrary: q)
  case (Node b v p cs i)
  show ?case
  proof (cases "b = a")
    case True
    with Node.prems assms(2) [of "Node b v p cs i" q] show ?thesis by simp
  next
    case False
    with Node show ?thesis by auto
  qed
qed

lemma inv_lookup:
  assumes "Tree_inv t" and "nodeMap t i = Some a"
  shows "\<exists>n. n \<in> set (live t) \<and> ID n = i \<and> addr n = a \<and> deref t a = Some n"
proof -
  from assms have "(i, a) \<in> set (map (\<lambda>n. (ID n, addr n)) (live t))"
    by (simp add: Tree_inv_def)
  then obtain n where n: "n \<in> set (live t)" "ID n = i" "addr n = a"
    by auto
  from assms(1) have "distinct (map addr (live t))"
    by (simp add: Tree_inv_def)
  then have "find (\<lambda>m. addr m = addr n) (live t) = Some n"
    using n(1) by (rule find_distinct_key)
  with n show ?thesis
    by (auto simp: deref_def)
qed

lemma inv_node:
  assumes "Tree_inv t" and "n \<in> set (live t)"
  shows "nodeMap t (ID n) = Some (addr n)" and "deref t (addr n) = Some n"
proof -
  from assms have "(ID n, addr n) \<in> set (map (\<lambda>n. (ID n, addr n)) (live t))"
    by auto
  with assms(1) show "nodeMap t (ID n) = Some (addr n)"
    by (simp add: Tree_inv_def)
  from assms(1) have "distinct (map addr (live t))"
    by (simp add: Tree_inv_def)
  then have "find (\<lambda>m. addr m = addr n) (live t) = Some n"
    using assms(2) by (rule find_distinct_key)
  then show "deref t (addr n) = Some n"
    by (simp add: deref_def)
qed

lemma inv_empty: "Tree_inv empty_Tree"
  by (simp add: Tree_inv_def empty_Tree_def live_def)

lemma setRoot_inv:
  assumes "Tree_inv t"
  shows "Tree_inv (snd (setRoot v t))"
proof (cases "root t")
  case (Some r)
  with assms show ?thesis by (simp add: setRoot_def)
next
  case None
  then have "live t = []" by (simp add: live_def)
  with assms have "\<forall>i. nodeMap t i = None"
    by (simp add: Tree_inv_def)
  with None show ?thesis
    by (auto simp: setRoot_def Tree_inv_def live_def)
qed

lemma set_push_child:
  assumes "distinct (map addr (nodes r))"
    and "find (\<lambda>m. addr m = a) (nodes r) = Some n"
    and "\<And>b v p cs cs' i. g (Node b v p cs i) = g (Node b v p cs' i)"
  shows "set (map g (nodes (modify a (push_child c) r)))
           = set (map g (nodes r)) \<union> set (map g (nodes c))"
proof -
  have "mset (map g (nodes (modify a (push_child c) r)))
          = mset (map g (nodes r)) + mset (map g (nodes c))"
    using assms(1,2) by (rule mset_push_child) (rule assms(3))
  then have "set_mset (mset (map g (nodes (modify a (push_child c) r))))
          = set_mset (mset (map g (nodes r)) + mset (map g (nodes c)))"
    by simp
  then show ?thesis
    by (simp only: set_mset_mset set_mset_union)
qed

lemma appendNode_result:
  assumes "Tree_inv t" and "nodeMap t p = Some pa"
  shows "\<exists>r np. root t = Some r \<and> find (\<lambda>m. addr m = pa) (nodes r) = Some np
           \<and> ID np = p \<and> addr np = pa
           \<and> appendNode p v t =
               (Inr (nextID t),
                t\<lparr>root := Some (modify pa (push_child (Node (new_addr t) v (Some pa) [] (nextID t))) r),
                  nodeMap := (nodeMap t)(nextID t \<mapsto> new_addr t),
                  nextID := nextID t + 1\<rparr>)"
proof -
  from inv_lookup [OF assms] obtain n where
    n: "n \<in> set (live t)" "ID n = p" "addr n = pa" "deref t pa = Some n"
    by blast
  from n(1) obtain r where r: "root t = Some r"
    by (cases "root t") (auto simp: live_def)
  with n(4) have "find (\<lambda>m. addr m = pa) (nodes r) = Some n"
    by (simp add: deref_def live_def)
  with r n assms(2) show ?thesis
    by (simp add: appendNode_def)
qed

lemma appendNode_inv:
  assumes "Tree_inv t"
  shows "Tree_inv (snd (appendNode p v t))"
proof (cases "nodeMap t p")
  case None
  with assms show ?thesis by (simp add: appendNode_def)
next
  case (Some pa)
  define x where "x = new_addr t"
  define k where "k = nextID t"
  define c where "c = Node x v (Some pa) [] k"
  from appendNode_result [OF assms Some, of v] obtain r np where
    r: "root t = Some r" and np: "find (\<lambda>m. addr m = pa) (nodes r) = Some np"
    and res: "snd (appendNode p v t)
                = t\<lparr>root := Some (modify pa (push_child c) r),
                    nodeMap := (nodeMap t)(k \<mapsto> x), nextID := k + 1\<rparr>"
    by (auto simp: x_def k_def c_def)
  from r have lv: "live t = nodes r"
    by (simp add: live_def)
  from assms lv have d: "distinct (map addr (nodes r))" and di: "distinct (map ID (nodes r))"
    and mp: "\<And>i a. (nodeMap t i = Some a) = ((i, a) \<in> set (map (\<lambda>n. (ID n, addr n)) (nodes r)))"
    and lt: "\<And>n. n \<in> set (nodes r) \<Longrightarrow> ID n < k"
    and po: "parents_ok None r"
    by (simp_all add: Tree_inv_def r k_def)
  have xf: "x \<notin> set (map addr (nodes r))"
    using new_addr_fresh [of t] by (simp add: x_def lv)
  have kf: "k \<notin> set (map ID (nodes r))"
    using lt by auto
  let ?r' = "modify pa (push_child c) r"
  have m1: "mset (map addr (nodes ?r')) = mset (x # map addr (nodes r))"
    using mset_push_child [OF d np, of addr c] by (simp add: c_def)
  have m2: "mset (map ID (nodes ?r')) = mset (k # map ID (nodes r))"
    using mset_push_child [OF d np, of ID c] by (simp add: c_def)
  have s3: "set (map (\<lambda>n. (ID n, addr n)) (nodes ?r'))
              = insert (k, x) (set (map (\<lambda>n. (ID n, addr n)) (nodes r)))"
    using set_push_child [OF d np, of "\<lambda>n. (ID n, addr n)" c] by (simp add: c_def)
  have s2: "set (map ID (nodes ?r')) = insert k (set (map ID (nodes r)))"
    using set_push_child [OF d np, of ID c] by (simp add: c_def)
  have 1: "distinct (map addr (nodes ?r'))"
    using mset_eq_imp_distinct_iff [OF m1] d xf by simp
  have 2: "distinct (map ID (nodes ?r'))"
    using mset_eq_imp_distinct_iff [OF m2] di kf by simp
  have 3: "(((nodeMap t)(k \<mapsto> x)) i = Some a)
             = ((i, a) \<in> set (map (\<lambda>n. (ID n, addr n)) (nodes ?r')))" for i a
  proof (cases "i = k")
    case True
    have "(k, a) \<notin> set (map (\<lambda>n. (ID n, addr n)) (nodes r))"
      using kf by auto
    with True show ?thesis
      unfolding s3 by auto
  next
    case False
    then show ?thesis
      unfolding s3 using mp [of i a] by simp
  qed
  have 4: "ID n < k + 1" if "n \<in> set (nodes ?r')" for n
  proof -
    from that have "ID n \<in> set (map ID (nodes ?r'))"
      by simp
    then have "ID n = k \<or> ID n \<in> set (map ID (nodes r))"
      unfolding s2 by simp
    then show ?thesis
    proof
      assume "ID n = k"
      then show ?thesis by simp
    next
      assume "ID n \<in> set (map ID (nodes r))"
      then obtain m where "m \<in> set (nodes r)" and "ID m = ID n"
        by auto
      with lt [of m] show ?thesis by simp
    qed
  qed
  have 5: "parents_ok None ?r'"
    using po
  proof (rule parents_ok_modify)
    fix q' and m :: "'a node"
    assume "addr m = pa" and "parents_ok q' m"
    then show "parents_ok q' (push_child c m)"
      by (cases m) (auto simp: c_def)
  qed
  show ?thesis
    unfolding res Tree_inv_def using 1 2 3 4 5 by (simp add: live_def)
qed

lemma cleanupSubtree_children:
  assumes "\<And>c m. c \<in> set cs \<Longrightarrow>
             cleanupSubtree c m = (\<lambda>j. if j \<in> set (map ID (nodes c)) then None else m j)"
  shows "foldl (\<lambda>m c. cleanupSubtree c m) m cs
           = (\<lambda>j. if j \<in> set (map ID (concat (map nodes cs))) then None else m j)"
  using assms
proof (induction cs arbitrary: m)
  case Nil
  show ?case by simp
next
  case (Cons c cs)
  then show ?case by (auto simp: fun_eq_iff)
qed

lemma cleanupSubtree_eq:
  "cleanupSubtree nd m = (\<lambda>j. if j \<in> set (map ID (nodes nd)) then None else m j)"
proof (induction nd arbitrary: m)
  case (Node a v p cs i)
  have "foldl (\<lambda>m c. cleanupSubtree c m) m cs
           = (\<lambda>j. if j \<in> set (map ID (concat (map nodes cs))) then None else m j)"
    by (rule cleanupSubtree_children) (rule Node.IH)
  then show ?case
    by (auto simp: fun_eq_iff)
qed

lemma parents_ok_parent: "parents_ok q r \<Longrightarrow> parent r = q"
  by (cases r) simp

lemma parent_of:
  assumes "parents_ok q r" and "nd \<in> set (nodes r)"
  shows "nd = r \<or> (\<exists>np \<in> set (nodes r). nd \<in> set (children np) \<and> parent nd = Some (addr np))"
  using assms
proof (induction r arbitrary: q)
  case (Node b v p cs i)
  show ?case
  proof (cases "nd = Node b v p cs i")
    case True
    then show ?thesis by simp
  next
    case False
    with Node.prems(2) obtain c where c: "c \<in> set cs" "nd \<in> set (nodes c)"
      by auto
    from Node.prems(1) c(1) have pc: "parents_ok (Some b) c"
      by simp
    from Node.IH [OF c(1) pc c(2)] show ?thesis
    proof
      assume "nd = c"
      with c(1) pc have "nd \<in> set (children (Node b v p cs i))"
        and "parent nd = Some (addr (Node b v p cs i))"
        by (simp_all add: parents_ok_parent)
      then show ?thesis
        by (intro disjI2 bexI [of _ "Node b v p cs i"]) simp_all
    next
      assume "\<exists>np \<in> set (nodes c). nd \<in> set (children np) \<and> parent nd = Some (addr np)"
      with c(1) show ?thesis by auto
    qed
  qed
qed

lemma distinct_children_list:
  "distinct (map f (concat (map nodes cs))) \<Longrightarrow> distinct (map f cs)"
proof (induction cs)
  case Nil
  show ?case by simp
next
  case (Cons c cs)
  have "f c \<in> set (map f (nodes c))"
    using self_in_nodes [of c] by simp
  moreover have "set (map f cs) \<subseteq> set (map f (concat (map nodes cs)))"
    using self_in_nodes by fastforce
  ultimately show ?case
    using Cons by auto
qed

lemma distinct_subtree:
  assumes "n \<in> set (nodes r)" and "distinct (map f (nodes r))"
  shows "distinct (map f (nodes n))"
  using assms
proof (induction r)
  case (Node b v p cs i)
  show ?case
  proof (cases "n = Node b v p cs i")
    case True
    with Node.prems show ?thesis by simp
  next
    case False
    with Node.prems(1) obtain c where c: "c \<in> set cs" "n \<in> set (nodes c)"
      by auto
    from Node.prems(2) have "distinct (map f (concat (map nodes cs)))"
      by simp
    with c(1) have "distinct (map f (nodes c))"
      by (induction cs) auto
    with Node.IH c show ?thesis by blast
  qed
qed

lemma mset_erase_children:
  assumes "distinct (map addr cs)" and "nd \<in> set cs"
  shows "mset (concat (map h (filter (\<lambda>c. addr c \<noteq> addr nd) cs))) + mset (h nd)
           = mset (concat (map h cs))"
  using assms
proof (induction cs)
  case Nil
  then show ?case by simp
next
  case (Cons c cs)
  show ?case
  proof (cases "c = nd")
    case True
    with Cons.prems have "addr nd \<notin> addr ` set cs"
      by simp
    then have "\<forall>d \<in> set cs. addr d \<noteq> addr nd"
      by (metis imageI)
    then have "filter (\<lambda>c. addr c \<noteq> addr nd) cs = cs"
      by (simp add: filter_id_conv)
    with True show ?thesis by simp
  next
    case False
    with Cons.prems have "nd \<in> set cs" and "addr c \<noteq> addr nd"
      by auto
    with Cons show ?thesis by simp
  qed
qed

lemma mset_erase_child:
  assumes d: "distinct (map addr (nodes r))"
    and np: "find (\<lambda>m. addr m = pa) (nodes r) = Some np"
    and nd: "nd \<in> set (children np)"
    and g: "\<And>b v p cs cs' i. g (Node b v p cs i) = g (Node b v p cs' i)"
  shows "mset (map g (nodes (modify pa (erase_child (addr nd)) r))) + mset (map g (nodes nd))
           = mset (map g (nodes r))"
proof -
  have 1: "mset (map g (nodes (modify pa (erase_child (addr nd)) r))) + mset (map g (nodes np))
          = mset (map g (nodes r)) + mset (map g (nodes (erase_child (addr nd) np)))"
    using d np by (rule mset_modify) (rule g)
  from np have "np \<in> set (nodes r)"
    by (auto dest: find_SomeD)
  then have "distinct (map addr (nodes np))"
    using d by (rule distinct_subtree)
  then have "distinct (map addr (children np))"
    by (cases np) (simp add: distinct_children_list)
  then have "mset (concat (map (\<lambda>c. map g (nodes c))
                (filter (\<lambda>c. addr c \<noteq> addr nd) (children np)))) + mset (map g (nodes nd))
           = mset (concat (map (\<lambda>c. map g (nodes c)) (children np)))"
    using nd by (rule mset_erase_children)
  then have 2: "mset (map g (nodes (erase_child (addr nd) np))) + mset (map g (nodes nd))
              = mset (map g (nodes np))"
    using g [of "addr np" "val np" "parent np" "filter (\<lambda>c. addr c \<noteq> addr nd) (children np)"
        "ID np" "children np"]
    by (cases np) (simp add: map_concat comp_def)
  from 1 have "mset (map g (nodes (modify pa (erase_child (addr nd)) r)))
                + (mset (map g (nodes (erase_child (addr nd) np))) + mset (map g (nodes nd)))
              = mset (map g (nodes r)) + mset (map g (nodes (erase_child (addr nd) np)))"
    by (simp only: 2)
  then show ?thesis
    by simp
qed

lemma removeNode_result:
  assumes "Tree_inv t" and "nodeID \<noteq> getRootID t" and "nodeMap t nodeID = Some x"
  shows "\<exists>r nd np. root t = Some r \<and> find (\<lambda>m. addr m = x) (nodes r) = Some nd
           \<and> ID nd = nodeID \<and> addr nd = x \<and> nd \<in> set (children np)
           \<and> find (\<lambda>m. addr m = addr np) (nodes r) = Some np
           \<and> removeNode nodeID t =
               (Inr (),
                t\<lparr>root := Some (modify (addr np) (erase_child x) r),
                  nodeMap := (\<lambda>j. if j \<in> set (map ID (nodes nd)) then None else nodeMap t j)\<rparr>)"
proof -
  from inv_lookup [OF assms(1,3)] obtain nd where
    nd: "nd \<in> set (live t)" "ID nd = nodeID" "addr nd = x" "deref t x = Some nd"
    by blast
  from nd(1) obtain r where r: "root t = Some r"
    by (cases "root t") (auto simp: live_def)
  then have lv: "live t = nodes r"
    by (simp add: live_def)
  from assms(1) r have po: "parents_ok None r"
    by (simp add: Tree_inv_def)
  from assms(2) r nd(2) have "nd \<noteq> r"
    by (auto simp: getRootID_def)
  with parent_of [OF po] nd(1) lv obtain np where
    np: "np \<in> set (nodes r)" "nd \<in> set (children np)" "parent nd = Some (addr np)"
    by auto
  from np(1) lv have dnp: "deref t (addr np) = Some np"
    using inv_node(2) [OF assms(1)] by simp
  from nd(4) dnp have f: "find (\<lambda>m. addr m = x) (nodes r) = Some nd"
    "find (\<lambda>m. addr m = addr np) (nodes r) = Some np"
    by (simp_all add: deref_def lv)
  have "removeNode nodeID t =
               (Inr (),
                t\<lparr>root := Some (modify (addr np) (erase_child x) r),
                  nodeMap := (\<lambda>j. if j \<in> set (map ID (nodes nd)) then None else nodeMap t j)\<rparr>)"
    using assms(2,3) nd(4) np(3) dnp r
    by (simp add: removeNode_def cleanupSubtree_eq)
  with r f nd(2,3) np(2) show ?thesis
    by blast
qed

lemma distinct_mset_append:
  assumes "mset xs + mset ys = mset zs" and "distinct zs"
  shows "distinct xs" and "set xs \<inter> set ys = {}" and "set zs = set xs \<union> set ys"
proof -
  from assms(1) have eq: "mset (xs @ ys) = mset zs"
    by simp
  from mset_eq_imp_distinct_iff [OF eq] assms(2) have "distinct (xs @ ys)"
    by simp
  then show "distinct xs" and "set xs \<inter> set ys = {}"
    by simp_all
  from mset_eq_setD [OF eq] show "set zs = set xs \<union> set ys"
    by simp
qed

lemma removeNode_inv:
  assumes "Tree_inv t"
  shows "Tree_inv (snd (removeNode nodeID t))"
proof (cases "nodeID = getRootID t \<or> nodeMap t nodeID = None")
  case True
  with assms show ?thesis
    by (auto simp: removeNode_def)
next
  case False
  then obtain x where x: "nodeID \<noteq> getRootID t" "nodeMap t nodeID = Some x"
    by auto
  from removeNode_result [OF assms x] obtain r nd np where
    r: "root t = Some r" and xa: "addr nd = x" and nd: "nd \<in> set (children np)"
    and np: "find (\<lambda>m. addr m = addr np) (nodes r) = Some np"
    and res: "snd (removeNode nodeID t) =
                t\<lparr>root := Some (modify (addr np) (erase_child x) r),
                  nodeMap := (\<lambda>j. if j \<in> set (map ID (nodes nd)) then None else nodeMap t j)\<rparr>"
    by auto
  from r have lv: "live t = nodes r"
    by (simp add: live_def)
  from assms lv have d: "distinct (map addr (nodes r))" and di: "distinct (map ID (nodes r))"
    and mp: "\<And>i a. (nodeMap t i = Some a) = ((i, a) \<in> set (map (\<lambda>n. (ID n, addr n)) (nodes r)))"
    and lt: "\<And>n. n \<in> set (nodes r) \<Longrightarrow> ID n < nextID t"
    and po: "parents_ok None r"
    by (simp_all add: Tree_inv_def r)
  let ?r' = "modify (addr np) (erase_child x) r"
  have m: "mset (map g (nodes ?r')) + mset (map g (nodes nd)) = mset (map g (nodes r))"
    if "\<And>b v p cs cs' i. g (Node b v p cs i) = g (Node b v p cs' i)" for g :: "'a node \<Rightarrow> 'b"
    using mset_erase_child [OF d np nd, of g] that by (simp add: xa)
  have m1: "mset (map addr (nodes ?r')) + mset (map addr (nodes nd)) = mset (map addr (nodes r))"
    by (rule m) simp
  have m2: "mset (map ID (nodes ?r')) + mset (map ID (nodes nd)) = mset (map ID (nodes r))"
    by (rule m) simp
  have m3: "mset (map (\<lambda>n. (ID n, addr n)) (nodes ?r')) + mset (map (\<lambda>n. (ID n, addr n)) (nodes nd))
              = mset (map (\<lambda>n. (ID n, addr n)) (nodes r))"
    by (rule m) simp
  have 1: "distinct (map addr (nodes ?r'))"
    using distinct_mset_append(1) [OF m1 d] .
  have 2: "distinct (map ID (nodes ?r'))"
    using distinct_mset_append(1) [OF m2 di] .
  have disj: "set (map ID (nodes ?r')) \<inter> set (map ID (nodes nd)) = {}"
    using distinct_mset_append(2) [OF m2 di] .
  have ids: "set (map ID (nodes r)) = set (map ID (nodes ?r')) \<union> set (map ID (nodes nd))"
    using distinct_mset_append(3) [OF m2 di] .
  have pairs: "set (map (\<lambda>n. (ID n, addr n)) (nodes r))
                 = set (map (\<lambda>n. (ID n, addr n)) (nodes ?r'))
                   \<union> set (map (\<lambda>n. (ID n, addr n)) (nodes nd))"
    using mset_eq_setD [of "map (\<lambda>n. (ID n, addr n)) (nodes ?r') @ map (\<lambda>n. (ID n, addr n)) (nodes nd)"
        "map (\<lambda>n. (ID n, addr n)) (nodes r)"] m3
    by simp
  have 3: "((if i \<in> set (map ID (nodes nd)) then None else nodeMap t i) = Some a)
             = ((i, a) \<in> set (map (\<lambda>n. (ID n, addr n)) (nodes ?r')))" for i a
  proof (cases "i \<in> set (map ID (nodes nd))")
    case True
    with disj have "i \<notin> set (map ID (nodes ?r'))"
      by auto
    then have "(i, a) \<notin> set (map (\<lambda>n. (ID n, addr n)) (nodes ?r'))"
      by force
    with True show ?thesis by simp
  next
    case False
    then have "(i, a) \<notin> set (map (\<lambda>n. (ID n, addr n)) (nodes nd))"
      by force
    moreover have "(nodeMap t i = Some a)
        = ((i, a) \<in> set (map (\<lambda>n. (ID n, addr n)) (nodes ?r'))
            \<union> set (map (\<lambda>n. (ID n, addr n)) (nodes nd)))"
      unfolding mp pairs ..
    ultimately show ?thesis
      using False by simp
  qed
  have 4: "ID n < nextID t" if "n \<in> set (nodes ?r')" for n
  proof -
    from that have "ID n \<in> set (map ID (nodes ?r'))"
      by simp
    with ids have "ID n \<in> set (map ID (nodes r))"
      by simp
    then obtain m where "m \<in> set (nodes r)" and "ID m = ID n"
      by auto
    with lt [of m] show ?thesis by simp
  qed
  have 5: "parents_ok None ?r'"
    using po
  proof (rule parents_ok_modify)
    fix q' and m :: "'a node"
    assume "parents_ok q' m"
    then show "parents_ok q' (erase_child x m)"
      by (cases m) auto
  qed
  show ?thesis
    unfolding res Tree_inv_def using 1 2 3 4 5 by (simp add: live_def)
qed

lemma perform_inv: "Tree_inv t \<Longrightarrow> Tree_inv (perform t c)"
  by (cases c) (simp_all add: setRoot_inv appendNode_inv removeNode_inv)

lemma run_inv: "Tree_inv (run calls)"
proof -
  have "Tree_inv t \<Longrightarrow> Tree_inv (foldl perform t calls)" for t :: "'a Tree"
    by (induction calls arbitrary: t) (simp_all add: perform_inv)
  then show ?thesis
    by (simp add: run_def inv_empty)
qed

section \<open>What appendNode and removeNode change\<close>

lemma inv_entry:
  assumes "Tree_inv t" and "(i, v, cs) \<in> set (map entry (live t))"
  shows "getValue i t = Inr v" and "getChildrenIDs i t = Inr cs"
proof -
  from assms(2) obtain n where n: "n \<in> set (live t)" "entry n = (i, v, cs)"
    by auto
  from inv_node [OF assms(1) n(1)] n(2)
  show "getValue i t = Inr v" and "getChildrenIDs i t = Inr cs"
    by (simp_all add: getValue_def getChildrenIDs_def entry_def)
qed

lemma entry_modify_children:
  assumes "\<And>m. ID (f m) = ID m"
  shows "entry (Node b v p (map (modify a f) cs) i) = entry (Node b v p cs i)"
  by (simp add: entry_def comp_def ID_modify [OF assms])

lemma entries_push_child:
  assumes d: "distinct (map addr (nodes r))"
    and np: "find (\<lambda>m. addr m = a) (nodes r) = Some np"
  shows "mset (map entry (nodes (modify a (push_child (Node x v q [] k)) r))) + {#entry np#}
           = mset (map entry (nodes r))
             + {#(ID np, val np, map ID (children np) @ [k]), (k, v, [])#}"
proof -
  let ?c = "Node x v q [] k"
  have "ID (push_child ?c m) = ID m" for m :: "'a node"
    by (cases m) simp
  then have "entry (Node b w p (map (modify a (push_child ?c)) cs) i) = entry (Node b w p cs i)"
    for b w p cs i
    by (rule entry_modify_children)
  with d np have 1: "mset (map entry (nodes (modify a (push_child ?c) r))) + mset (map entry (nodes np))
          = mset (map entry (nodes r)) + mset (map entry (nodes (push_child ?c np)))"
    by (rule mset_modify)
  have 2: "mset (map entry (nodes (push_child ?c np))) + {#entry np#}
         = mset (map entry (nodes np)) + {#(ID np, val np, map ID (children np) @ [k]), (k, v, [])#}"
    by (cases np) (simp add: entry_def)
  from 1 have "mset (map entry (nodes (modify a (push_child ?c) r))) + {#entry np#}
                 + mset (map entry (nodes np))
          = mset (map entry (nodes r)) + (mset (map entry (nodes (push_child ?c np))) + {#entry np#})"
    by simp
  then show ?thesis
    unfolding 2 by simp
qed

lemma same_ID_same_node:
  assumes "distinct (map ID xs)" and "n \<in> set xs" and "m \<in> set xs" and "ID n = ID m"
  shows "n = m"
  using assms by (meson distinct_map inj_onD)

lemma appendNode_spec:
  assumes inv: "Tree_inv t" and p: "nodeMap t p = Some pa"
  shows "\<exists>t'. appendNode p v t = (Inr (nextID t), t') \<and> Tree_inv t'
           \<and> nodeMap t (nextID t) = None
           \<and> nodeMap t' = (nodeMap t)(nextID t \<mapsto> new_addr t)
           \<and> length (live t') = Suc (length (live t))
           \<and> getRootID t' = getRootID t
           \<and> getValue (nextID t) t' = Inr v
           \<and> getChildrenIDs (nextID t) t' = Inr []
           \<and> (\<exists>cs. getChildrenIDs p t = Inr cs \<and> getChildrenIDs p t' = Inr (cs @ [nextID t]))
           \<and> (\<forall>j. nodeMap t j \<noteq> None \<longrightarrow>
                 getValue j t' = getValue j t
                 \<and> (j \<noteq> p \<longrightarrow> getChildrenIDs j t' = getChildrenIDs j t))"
proof -
  define k where "k = nextID t"
  define x where "x = new_addr t"
  from appendNode_result [OF inv p, of v] obtain r np where
    r: "root t = Some r" and np: "find (\<lambda>m. addr m = pa) (nodes r) = Some np"
    and idnp: "ID np = p"
    and res: "appendNode p v t = (Inr k,
                t\<lparr>root := Some (modify pa (push_child (Node x v (Some pa) [] k)) r),
                  nodeMap := (nodeMap t)(k \<mapsto> x), nextID := k + 1\<rparr>)"
    by (auto simp: k_def x_def)
  define t' where "t' = t\<lparr>root := Some (modify pa (push_child (Node x v (Some pa) [] k)) r),
                  nodeMap := (nodeMap t)(k \<mapsto> x), nextID := k + 1\<rparr>"
  let ?r' = "modify pa (push_child (Node x v (Some pa) [] k)) r"
  from r have lv: "live t = nodes r"
    by (simp add: live_def)
  have lv': "live t' = nodes ?r'"
    by (simp add: live_def t'_def)
  from inv lv have d: "distinct (map addr (nodes r))" and di: "distinct (map ID (nodes r))"
    and lt: "\<And>n. n \<in> set (nodes r) \<Longrightarrow> ID n < k"
    by (simp_all add: Tree_inv_def k_def)
  from np have npin: "np \<in> set (nodes r)"
    by (auto dest: find_SomeD)
  have inv': "Tree_inv t'"
    using appendNode_inv [OF inv, of p v] res by (simp add: t'_def)
  have fresh: "nodeMap t k = None"
  proof (cases "nodeMap t k")
    case (Some a)
    from inv_lookup [OF inv Some] lv lt show ?thesis
      by force
  qed simp
  have "mset (map entry (nodes ?r')) + {#entry np#}
           = mset (map entry (nodes r))
             + {#(ID np, val np, map ID (children np) @ [k]), (k, v, [])#}"
    using d np by (rule entries_push_child)
  then have "set_mset (mset (map entry (nodes ?r')) + {#entry np#})
           = set_mset (mset (map entry (nodes r))
             + {#(ID np, val np, map ID (children np) @ [k]), (k, v, [])#})"
    by simp
  then have S: "insert (entry np) (set (map entry (nodes ?r')))
                 = set (map entry (nodes r))
                   \<union> {(p, val np, map ID (children np) @ [k]), (k, v, [])}"
    by (simp add: idnp)
  have "(k, v, []) \<noteq> entry np"
    using lt [OF npin] by (auto simp: entry_def)
  with S have new: "(k, v, []) \<in> set (map entry (live t'))"
    unfolding lv' by blast
  have "(p, val np, map ID (children np) @ [k]) \<noteq> entry np"
    by (simp add: entry_def)
  with S have par: "(p, val np, map ID (children np) @ [k]) \<in> set (map entry (live t'))"
    unfolding lv' by blast
  have old: "entry n \<in> set (map entry (live t'))" if "n \<in> set (nodes r)" and "ID n \<noteq> p" for n
  proof -
    from that(2) have "entry n \<noteq> entry np"
      by (auto simp: entry_def idnp)
    moreover from that(1) have "entry n \<in> set (map entry (nodes r))"
      by simp
    ultimately show ?thesis
      using S unfolding lv' by blast
  qed
  have npe: "(p, val np, map ID (children np)) \<in> set (map entry (live t))"
    using npin by (force simp: lv entry_def idnp)
  have frame: "getValue j t' = getValue j t
                 \<and> (j \<noteq> p \<longrightarrow> getChildrenIDs j t' = getChildrenIDs j t)"
    if "nodeMap t j \<noteq> None" for j
  proof -
    from that obtain a where "nodeMap t j = Some a"
      by auto
    from inv_lookup [OF inv this] obtain n where n: "n \<in> set (nodes r)" "ID n = j"
      by (auto simp: lv)
    then have e: "(j, val n, map ID (children n)) \<in> set (map entry (live t))"
      by (force simp: lv entry_def)
    show ?thesis
    proof (cases "j = p")
      case True
      with n npin idnp have "n = np"
        using same_ID_same_node [OF di] by blast
      with True inv_entry(1) [OF inv' par] inv_entry(1) [OF inv e] show ?thesis
        by simp
    next
      case False
      with n old [of n] have "(j, val n, map ID (children n)) \<in> set (map entry (live t'))"
        by (simp add: entry_def)
      from inv_entry [OF inv' this] inv_entry [OF inv e] show ?thesis
        by simp
    qed
  qed
  have "getRootID t' = getRootID t"
  proof -
    have "ID (push_child (Node x v (Some pa) [] k) m) = ID m" for m :: "'a node"
      by (cases m) simp
    then have "ID ?r' = ID r"
      by (rule ID_modify)
    then show ?thesis
      by (simp add: getRootID_def t'_def r)
  qed
  moreover have "nodeMap t' = (nodeMap t)(k \<mapsto> x)"
    by (simp add: t'_def)
  moreover have "length (live t') = Suc (length (live t))"
  proof -
    have "mset (map addr (nodes ?r')) = mset (map addr (nodes r)) + mset (map addr (nodes (Node x v (Some pa) [] k)))"
      using d np by (rule mset_push_child) simp
    then have "size (mset (map addr (nodes ?r'))) = size (mset (map addr (nodes r)) + {#x#})"
      by simp
    then show ?thesis
      by (simp add: lv lv')
  qed
  moreover note inv_entry [OF inv' new] inv_entry(2) [OF inv' par] inv_entry(2) [OF inv npe]
    inv' fresh frame res
  ultimately show ?thesis
    unfolding k_def [symmetric] x_def [symmetric] t'_def [symmetric]
    by (intro exI [of _ t']) simp
qed

lemma entries_erase_child:
  assumes d: "distinct (map addr (nodes r))"
    and np: "find (\<lambda>m. addr m = pa) (nodes r) = Some np"
    and nd: "nd \<in> set (children np)"
  shows "mset (map entry (nodes (modify pa (erase_child (addr nd)) r))) + {#entry np#}
             + mset (map entry (nodes nd))
           = mset (map entry (nodes r))
             + {#(ID np, val np, map ID (filter (\<lambda>c. addr c \<noteq> addr nd) (children np)))#}"
proof -
  let ?f = "erase_child (addr nd)"
  let ?keep = "filter (\<lambda>c. addr c \<noteq> addr nd) (children np)"
  have "ID (?f m) = ID m" for m :: "'a node"
    by (cases m) simp
  then have "entry (Node b w p (map (modify pa ?f) cs) i) = entry (Node b w p cs i)"
    for b w p i and cs :: "'a node list"
    by (rule entry_modify_children)
  with d np have 1: "mset (map entry (nodes (modify pa ?f r))) + mset (map entry (nodes np))
          = mset (map entry (nodes r)) + mset (map entry (nodes (?f np)))"
    by (rule mset_modify)
  from np have "np \<in> set (nodes r)"
    by (auto dest: find_SomeD)
  then have "distinct (map addr (nodes np))"
    using d by (rule distinct_subtree)
  then have "distinct (map addr (children np))"
    by (cases np) (simp add: distinct_children_list)
  then have 2: "mset (concat (map (\<lambda>c. map entry (nodes c)) ?keep)) + mset (map entry (nodes nd))
           = mset (concat (map (\<lambda>c. map entry (nodes c)) (children np)))"
    using nd by (rule mset_erase_children)
  have 3: "mset (map entry (nodes (?f np)))
             = {#(ID np, val np, map ID ?keep)#} + mset (concat (map (\<lambda>c. map entry (nodes c)) ?keep))"
    by (cases np) (simp add: entry_def map_concat comp_def)
  have 4: "mset (map entry (nodes np))
             = {#entry np#} + mset (concat (map (\<lambda>c. map entry (nodes c)) (children np)))"
    by (cases np) (simp add: map_concat comp_def)
  from 1 show ?thesis
    unfolding 3 4 2 [symmetric] by simp
qed

lemma ids_filter_addr:
  assumes "distinct (map addr cs)" and "distinct (map ID cs)" and "nd \<in> set cs"
  shows "map ID (filter (\<lambda>c. addr c \<noteq> addr nd) cs) = remove1 (ID nd) (map ID cs)"
  using assms
proof (induction cs)
  case Nil
  then show ?case by simp
next
  case (Cons c cs)
  show ?case
  proof (cases "c = nd")
    case True
    with Cons.prems have "addr nd \<notin> addr ` set cs"
      by simp
    then have "\<forall>d \<in> set cs. addr d \<noteq> addr nd"
      by (metis imageI)
    then have "filter (\<lambda>c. addr c \<noteq> addr nd) cs = cs"
      by (simp add: filter_id_conv)
    with True show ?thesis by simp
  next
    case False
    with Cons.prems have in_cs: "nd \<in> set cs"
      by simp
    with Cons.prems have "addr c \<noteq> addr nd" and "ID c \<noteq> ID nd"
      by (metis distinct.simps(2) imageI list.simps(9) set_map)+
    with Cons in_cs show ?thesis by simp
  qed
qed

lemma parent_ID_not_in_child:
  assumes "distinct (map ID (nodes np))" and "nd \<in> set (children np)"
  shows "ID np \<notin> set (map ID (nodes nd))"
proof -
  from assms(2) have "set (nodes nd) \<subseteq> set (concat (map nodes (children np)))"
    by auto
  then have "set (map ID (nodes nd)) \<subseteq> set (map ID (concat (map nodes (children np))))"
    by auto
  with assms(1) show ?thesis
    by (cases np) auto
qed

lemma removeNode_spec:
  assumes inv: "Tree_inv t" and nr: "nodeID \<noteq> getRootID t" and x: "nodeMap t nodeID = Some x"
  shows "\<exists>t' nd pid cs. removeNode nodeID t = (Inr (), t') \<and> Tree_inv t'
           \<and> deref t x = Some nd \<and> ID nd = nodeID
           \<and> nodeMap t' = (\<lambda>j. if j \<in> set (map ID (nodes nd)) then None else nodeMap t j)
           \<and> getRootID t' = getRootID t
           \<and> nodeID \<in> set cs \<and> nodeID \<notin> set (remove1 nodeID cs)
           \<and> getChildrenIDs pid t = Inr cs
           \<and> getChildrenIDs pid t' = Inr (remove1 nodeID cs)
           \<and> (\<forall>j. nodeMap t' j \<noteq> None \<longrightarrow>
                 getValue j t' = getValue j t
                 \<and> (j \<noteq> pid \<longrightarrow> getChildrenIDs j t' = getChildrenIDs j t))"
proof -
  from removeNode_result [OF inv nr x] obtain r nd np where
    r: "root t = Some r" and fnd: "find (\<lambda>m. addr m = x) (nodes r) = Some nd"
    and idnd: "ID nd = nodeID" and xa: "addr nd = x" and nd: "nd \<in> set (children np)"
    and np: "find (\<lambda>m. addr m = addr np) (nodes r) = Some np"
    and res: "removeNode nodeID t =
                (Inr (), t\<lparr>root := Some (modify (addr np) (erase_child x) r),
                  nodeMap := (\<lambda>j. if j \<in> set (map ID (nodes nd)) then None else nodeMap t j)\<rparr>)"
    by blast
  define t' where "t' = t\<lparr>root := Some (modify (addr np) (erase_child x) r),
                  nodeMap := (\<lambda>j. if j \<in> set (map ID (nodes nd)) then None else nodeMap t j)\<rparr>"
  let ?r' = "modify (addr np) (erase_child x) r"
  let ?keep = "filter (\<lambda>c. addr c \<noteq> x) (children np)"
  from r have lv: "live t = nodes r"
    by (simp add: live_def)
  have lv': "live t' = nodes ?r'"
    by (simp add: live_def t'_def)
  from inv lv have d: "distinct (map addr (nodes r))" and di: "distinct (map ID (nodes r))"
    by (simp_all add: Tree_inv_def)
  from np have npin: "np \<in> set (nodes r)"
    by (auto dest: find_SomeD)
  have dnp: "distinct (map addr (nodes np))" and dinp: "distinct (map ID (nodes np))"
    using npin d di by (auto intro: distinct_subtree)
  then have dc: "distinct (map addr (children np))" and dic: "distinct (map ID (children np))"
    by (cases np; simp add: distinct_children_list)+
  have inv': "Tree_inv t'"
    using removeNode_inv [OF inv, of nodeID] res by (simp add: t'_def)
  have "mset (map entry (nodes ?r')) + {#entry np#} + mset (map entry (nodes nd))
           = mset (map entry (nodes r)) + {#(ID np, val np, map ID ?keep)#}"
    using entries_erase_child [OF d np nd] by (simp add: xa)
  then have "set_mset (mset (map entry (nodes ?r')) + {#entry np#} + mset (map entry (nodes nd)))
           = set_mset (mset (map entry (nodes r)) + {#(ID np, val np, map ID ?keep)#})"
    by simp
  then have S: "insert (entry np) (set (map entry (nodes ?r')) \<union> set (map entry (nodes nd)))
                 = insert (ID np, val np, map ID ?keep) (set (map entry (nodes r)))"
    by simp
  have keep: "map ID ?keep = remove1 nodeID (map ID (children np))"
    using ids_filter_addr [OF dc dic nd] by (simp add: xa idnd)
  have notnp: "ID np \<notin> set (map ID (nodes nd))"
    using dinp nd by (rule parent_ID_not_in_child)
  have "length ?keep < length (children np)"
    using nd xa by (intro length_filter_less [of nd]) simp_all
  then have "map ID ?keep \<noteq> map ID (children np)"
    by (metis length_map nat_neq_iff)
  then have "(ID np, val np, map ID ?keep) \<noteq> entry np"
    by (simp add: entry_def)
  moreover have "(ID np, val np, map ID ?keep) \<notin> set (map entry (nodes nd))"
    using notnp by (force simp: entry_def)
  ultimately have par: "(ID np, val np, remove1 nodeID (map ID (children np)))
                          \<in> set (map entry (live t'))"
    using S unfolding lv' keep by blast
  have npe: "(ID np, val np, map ID (children np)) \<in> set (map entry (live t))"
    using npin by (force simp: lv entry_def)
  have frame: "getValue j t' = getValue j t
                 \<and> (j \<noteq> ID np \<longrightarrow> getChildrenIDs j t' = getChildrenIDs j t)"
    if j: "nodeMap t' j \<noteq> None" for j
  proof -
    from j have out: "j \<notin> set (map ID (nodes nd))" and "nodeMap t j \<noteq> None"
      by (auto simp: t'_def split: if_splits)
    then obtain a where "nodeMap t j = Some a"
      by auto
    from inv_lookup [OF inv this] obtain n where n: "n \<in> set (nodes r)" "ID n = j"
      by (auto simp: lv)
    then have e: "(j, val n, map ID (children n)) \<in> set (map entry (live t))"
      by (force simp: lv entry_def)
    show ?thesis
    proof (cases "j = ID np")
      case True
      with n npin have "n = np"
        using same_ID_same_node [OF di] by blast
      with True inv_entry(1) [OF inv' par] inv_entry(1) [OF inv e] show ?thesis
        by simp
    next
      case False
      with n have "entry n \<noteq> entry np"
        by (auto simp: entry_def)
      moreover from out n(2) have "entry n \<notin> set (map entry (nodes nd))"
        by (force simp: entry_def)
      moreover from n(1) have "entry n \<in> set (map entry (nodes r))"
        by simp
      ultimately have "entry n \<in> set (map entry (live t'))"
        using S unfolding lv' by blast
      with n(2) have "(j, val n, map ID (children n)) \<in> set (map entry (live t'))"
        by (simp add: entry_def)
      from inv_entry [OF inv' this] inv_entry [OF inv e] False show ?thesis
        by simp
    qed
  qed
  have root_same: "getRootID t' = getRootID t"
  proof -
    have "ID (erase_child x m) = ID m" for m :: "'a node"
      by (cases m) simp
    then have "ID ?r' = ID r"
      by (rule ID_modify)
    then show ?thesis
      by (simp add: getRootID_def t'_def r)
  qed
  have "nodeID \<in> set (map ID (children np))"
    using nd idnd by force
  moreover have "nodeID \<notin> set (remove1 nodeID (map ID (children np)))"
    using dic by simp
  moreover have "deref t x = Some nd"
    using fnd by (simp add: deref_def lv)
  moreover have "nodeMap t' = (\<lambda>j. if j \<in> set (map ID (nodes nd)) then None else nodeMap t j)"
    by (simp add: t'_def)
  moreover note inv_entry(2) [OF inv' par] inv_entry(2) [OF inv npe] inv' frame res idnd root_same
  ultimately show ?thesis
    unfolding t'_def [symmetric]
    by (intro exI [of _ t'] exI [of _ nd] exI [of _ "ID np"] exI [of _ "map ID (children np)"])
      simp
qed

section \<open>The index, removal and insertion\<close>

lemma inv_dom: "Tree_inv t \<Longrightarrow> dom (nodeMap t) = set (map ID (live t))"
  by (force simp: Tree_inv_def dom_def)

lemma subtree_ids_live:
  assumes "Tree_inv t" and "nodeMap t nodeID = Some x"
  shows "\<exists>nd. deref t x = Some nd \<and> ID nd = nodeID \<and> subtree_ids t nodeID = map ID (nodes nd)"
  using inv_lookup [OF assms] assms(2) by (auto simp: subtree_ids_def)

text \<open>
  The three lemmas of this section count in unbounded integers (\<open>run\<close>); the next
  section carries them over to the counter at 32 bits.

  After any sequence of \<open>setRoot\<close>, \<open>appendNode\<close> and \<open>removeNode\<close> calls on a new
  tree, the ids in \<open>nodeMap\<close> are exactly the ids of the nodes reachable from the root,
  every such id is mapped to the address of its own node (and that pointer leads to
  the node), the ids are pairwise different, and a further \<open>removeNode\<close> of a node
  other than the root takes exactly the ids of the subtree of that node out of
  \<open>nodeMap\<close>.
\<close>

lemma run_index:
  assumes "t = run calls"
  shows "dom (nodeMap t) = set (map ID (live t))
     \<and> (\<forall>n \<in> set (live t). nodeMap t (ID n) = Some (addr n) \<and> deref t (addr n) = Some n)
     \<and> distinct (map ID (live t))
     \<and> (\<forall>nodeID. nodeID \<noteq> getRootID t \<longrightarrow>
          dom (nodeMap (run (calls @ [RemoveNode nodeID])))
            = dom (nodeMap t) - set (subtree_ids t nodeID)
          \<and> set (map ID (live (run (calls @ [RemoveNode nodeID]))))
            = set (map ID (live t)) - set (subtree_ids t nodeID))"
proof -
  have inv: "Tree_inv t"
    unfolding assms by (rule run_inv)
  have rm: "dom (nodeMap (run (calls @ [RemoveNode nodeID])))
              = dom (nodeMap t) - set (subtree_ids t nodeID)"
    if nr: "nodeID \<noteq> getRootID t" for nodeID
  proof (cases "nodeMap t nodeID")
    case None
    with nr show ?thesis
      by (simp add: run_def assms removeNode_def subtree_ids_def)
  next
    case (Some x)
    from removeNode_spec [OF inv nr Some] obtain t' nd where
      "removeNode nodeID t = (Inr (), t')" and "deref t x = Some nd"
      and "nodeMap t' = (\<lambda>j. if j \<in> set (map ID (nodes nd)) then None else nodeMap t j)"
      by blast
    with Some show ?thesis
      by (auto simp: run_def assms subtree_ids_def dom_def split: if_splits)
  qed
  have "set (map ID (live (run (calls @ [RemoveNode nodeID]))))
            = set (map ID (live t)) - set (subtree_ids t nodeID)"
    if nr: "nodeID \<noteq> getRootID t" for nodeID
    using rm [OF nr] inv_dom [OF inv] inv_dom [OF run_inv, of "calls @ [RemoveNode nodeID]"]
    by simp
  with rm inv_dom [OF inv] inv_node [OF inv] inv show ?thesis
    by (simp add: Tree_inv_def)
qed

lemma run_index_scenario:
  "dom (nodeMap (run scenario_calls)) = {0, 1, 2, 3, 4, 5}
   \<and> distinct (map ID (live (run scenario_calls)))
   \<and> dom (nodeMap (run (scenario_calls @ [RemoveNode 1]))) = {0, 2, 3}
   \<and> set (map ID (live (run (scenario_calls @ [RemoveNode 1])))) = {0, 2, 3}"
proof -
  have ids: "set (map ID (live (run scenario_calls))) = {0, 1, 2, 3, 4, 5}"
    by code_simp
  have sub: "set (subtree_ids (run scenario_calls) 1) = {1, 4, 5}"
    by code_simp
  have nr: "1 \<noteq> getRootID (run scenario_calls)"
    by code_simp
  have diff: "{0, 1, 2, 3, 4, 5} - {1, 4, 5} = {0, 2, 3 :: int}"
    by auto
  note th = run_index [OF refl, of scenario_calls]
  from th have a: "dom (nodeMap (run scenario_calls)) = set (map ID (live (run scenario_calls)))"
    by (rule conjunct1)
  from th have d: "distinct (map ID (live (run scenario_calls)))"
    by simp
  note r = th [THEN conjunct2, THEN conjunct2, THEN conjunct2, rule_format, OF nr]
  show ?thesis
    using r d unfolding a ids sub diff by simp
qed

text \<open>
  On a tree reached by any sequence of calls, \<open>removeNode\<close> either fails and leaves
  the object exactly as it was (with "The root node cannot be removed" for the id of
  the root, with "does not exist" for an id that is not in \<open>nodeMap\<close>; there is no
  other failure), or, for a live node other than the root, it succeeds: then every id
  of the subtree of that node, the node's own id among them, is out of \<open>nodeMap\<close>, so
  that \<open>getValue\<close> and \<open>getChildrenIDs\<close> throw "does not exist" for it, and the node's
  id is gone from the children of its parent, whose other children keep their order.
\<close>

lemma run_removeNode:
  assumes "t = run calls"
  shows "(nodeID = getRootID t \<longrightarrow> removeNode nodeID t = (Inl CannotRemoveRoot, t))
     \<and> (nodeID \<noteq> getRootID t \<and> nodeMap t nodeID = None \<longrightarrow>
          removeNode nodeID t = (Inl NodeNotFound, t))
     \<and> (\<forall>e. fst (removeNode nodeID t) = Inl e \<longrightarrow>
          snd (removeNode nodeID t) = t \<and> (e = CannotRemoveRoot \<or> e = NodeNotFound))
     \<and> (nodeID \<noteq> getRootID t \<and> nodeMap t nodeID \<noteq> None \<longrightarrow>
          (\<exists>t' pid cs. removeNode nodeID t = (Inr (), t')
             \<and> nodeID \<in> set (subtree_ids t nodeID)
             \<and> (\<forall>j \<in> set (subtree_ids t nodeID).
                   nodeMap t' j = None \<and> getValue j t' = Inl NodeNotFound
                   \<and> getChildrenIDs j t' = Inl NodeNotFound)
             \<and> nodeID \<in> set cs \<and> nodeID \<notin> set (remove1 nodeID cs)
             \<and> getChildrenIDs pid t = Inr cs
             \<and> getChildrenIDs pid t' = Inr (remove1 nodeID cs)))"
proof -
  have inv: "Tree_inv t"
    unfolding assms by (rule run_inv)
  have root_case: "nodeID = getRootID t \<longrightarrow> removeNode nodeID t = (Inl CannotRemoveRoot, t)"
    by (simp add: removeNode_def)
  have absent_case: "nodeID \<noteq> getRootID t \<and> nodeMap t nodeID = None \<longrightarrow>
          removeNode nodeID t = (Inl NodeNotFound, t)"
    by (simp add: removeNode_def)
  have live_case: "\<exists>t' pid cs. removeNode nodeID t = (Inr (), t')
             \<and> nodeID \<in> set (subtree_ids t nodeID)
             \<and> (\<forall>j \<in> set (subtree_ids t nodeID).
                   nodeMap t' j = None \<and> getValue j t' = Inl NodeNotFound
                   \<and> getChildrenIDs j t' = Inl NodeNotFound)
             \<and> nodeID \<in> set cs \<and> nodeID \<notin> set (remove1 nodeID cs)
             \<and> getChildrenIDs pid t = Inr cs
             \<and> getChildrenIDs pid t' = Inr (remove1 nodeID cs)"
    if nr: "nodeID \<noteq> getRootID t" and lv: "nodeMap t nodeID \<noteq> None"
  proof -
    from lv obtain x where x: "nodeMap t nodeID = Some x"
      by auto
    from removeNode_spec [OF inv nr x] obtain t' nd pid cs where
      res: "removeNode nodeID t = (Inr (), t')" and nd: "deref t x = Some nd" "ID nd = nodeID"
      and m': "nodeMap t' = (\<lambda>j. if j \<in> set (map ID (nodes nd)) then None else nodeMap t j)"
      and cs: "nodeID \<in> set cs" "nodeID \<notin> set (remove1 nodeID cs)"
        "getChildrenIDs pid t = Inr cs" "getChildrenIDs pid t' = Inr (remove1 nodeID cs)"
      by blast
    from x nd have sub: "subtree_ids t nodeID = map ID (nodes nd)"
      by (simp add: subtree_ids_def)
    have "nodeID \<in> set (map ID (nodes nd))"
      using self_in_nodes [of nd] nd(2) by force
    moreover have "nodeMap t' j = None \<and> getValue j t' = Inl NodeNotFound
                   \<and> getChildrenIDs j t' = Inl NodeNotFound"
      if "j \<in> set (map ID (nodes nd))" for j
      using that by (simp add: m' getValue_def getChildrenIDs_def)
    ultimately show ?thesis
      using res cs unfolding sub by blast
  qed
  have fail_case: "snd (removeNode nodeID t) = t \<and> (e = CannotRemoveRoot \<or> e = NodeNotFound)"
    if e: "fst (removeNode nodeID t) = Inl e" for e
  proof (cases "nodeID = getRootID t")
    case True
    with e root_case show ?thesis by auto
  next
    case False
    show ?thesis
    proof (cases "nodeMap t nodeID")
      case None
      with False e absent_case show ?thesis by auto
    next
      case (Some x)
      with live_case [OF False] e show ?thesis by auto
    qed
  qed
  from root_case absent_case live_case fail_case show ?thesis
    by blast
qed

lemma run_removeNode_scenario:
  "removeNode 0 scenario_tree = (Inl CannotRemoveRoot, scenario_tree)
   \<and> removeNode 9 scenario_tree = (Inl NodeNotFound, scenario_tree)
   \<and> fst (removeNode 1 scenario_tree) = Inr ()
   \<and> map (nodeMap (snd (removeNode 1 scenario_tree))) [1, 4, 5] = [None, None, None]
   \<and> getValue 4 (snd (removeNode 1 scenario_tree)) = Inl NodeNotFound
   \<and> getChildrenIDs 0 scenario_tree = Inr [1, 2, 3]
   \<and> getChildrenIDs 0 (snd (removeNode 1 scenario_tree)) = Inr [2, 3]"
proof -
  have t: "scenario_tree = run scenario_calls"
    by (simp add: scenario_tree_def)
  have root: "getRootID scenario_tree = 0" and absent: "nodeMap scenario_tree 9 = None"
    and live: "nodeMap scenario_tree 1 \<noteq> None"
    and sub: "subtree_ids scenario_tree 1 = [1, 4, 5]"
    and kids: "getChildrenIDs 0 scenario_tree = Inr [1, 2, 3]"
    and kids': "getChildrenIDs 0 (snd (removeNode 1 scenario_tree)) = Inr [2, 3]"
    by code_simp+
  from run_removeNode [OF t, of 0] root
  have 1: "removeNode 0 scenario_tree = (Inl CannotRemoveRoot, scenario_tree)"
    by simp
  from run_removeNode [OF t, of 9] root absent
  have 2: "removeNode 9 scenario_tree = (Inl NodeNotFound, scenario_tree)"
    by simp
  from run_removeNode [OF t, of 1] root live obtain t' where
    "removeNode 1 scenario_tree = (Inr (), t')"
    and "\<forall>j \<in> set (subtree_ids scenario_tree 1).
           nodeMap t' j = None \<and> getValue j t' = Inl NodeNotFound
           \<and> getChildrenIDs j t' = Inl NodeNotFound"
    by auto
  then have 3: "fst (removeNode 1 scenario_tree) = Inr ()"
    and 4: "map (nodeMap (snd (removeNode 1 scenario_tree))) [1, 4, 5] = [None, None, None]"
    and 5: "getValue 4 (snd (removeNode 1 scenario_tree)) = Inl NodeNotFound"
    by (simp_all add: sub)
  from 1 2 3 4 5 kids kids' show ?thesis
    by simp
qed

text \<open>
  On a tree reached by any sequence of calls, \<open>appendNode\<close> throws "does not exist"
  and leaves the object as it was when \<open>parentID\<close> is not in \<open>nodeMap\<close>. Otherwise it
  returns \<open>nextID\<close>, an id that was not in use; afterwards there is one node more, the
  new id is in \<open>nodeMap\<close> with the given value and no children, it is the last child
  of the parent, whose earlier children are as before, and every node that was there
  keeps its id, its place in \<open>nodeMap\<close>, its value and its children; the root is the
  same.
\<close>

lemma run_appendNode:
  assumes "t = run calls"
  shows "(nodeMap t parentID = None \<longrightarrow> appendNode parentID v t = (Inl NodeNotFound, t))
     \<and> (nodeMap t parentID \<noteq> None \<longrightarrow>
          (\<exists>t' cs. appendNode parentID v t = (Inr (nextID t), t')
             \<and> nodeMap t (nextID t) = None
             \<and> dom (nodeMap t') = insert (nextID t) (dom (nodeMap t))
             \<and> length (live t') = Suc (length (live t))
             \<and> getValue (nextID t) t' = Inr v
             \<and> getChildrenIDs (nextID t) t' = Inr []
             \<and> getChildrenIDs parentID t = Inr cs
             \<and> getChildrenIDs parentID t' = Inr (cs @ [nextID t])
             \<and> getRootID t' = getRootID t
             \<and> (\<forall>j \<in> dom (nodeMap t).
                   nodeMap t' j = nodeMap t j \<and> getValue j t' = getValue j t
                   \<and> (j \<noteq> parentID \<longrightarrow> getChildrenIDs j t' = getChildrenIDs j t))))"
proof -
  have inv: "Tree_inv t"
    unfolding assms by (rule run_inv)
  have absent_case: "nodeMap t parentID = None \<longrightarrow>
      appendNode parentID v t = (Inl NodeNotFound, t)"
    by (simp add: appendNode_def)
  have live_case: "\<exists>t' cs. appendNode parentID v t = (Inr (nextID t), t')
             \<and> nodeMap t (nextID t) = None
             \<and> dom (nodeMap t') = insert (nextID t) (dom (nodeMap t))
             \<and> length (live t') = Suc (length (live t))
             \<and> getValue (nextID t) t' = Inr v
             \<and> getChildrenIDs (nextID t) t' = Inr []
             \<and> getChildrenIDs parentID t = Inr cs
             \<and> getChildrenIDs parentID t' = Inr (cs @ [nextID t])
             \<and> getRootID t' = getRootID t
             \<and> (\<forall>j \<in> dom (nodeMap t).
                   nodeMap t' j = nodeMap t j \<and> getValue j t' = getValue j t
                   \<and> (j \<noteq> parentID \<longrightarrow> getChildrenIDs j t' = getChildrenIDs j t))"
    if "nodeMap t parentID \<noteq> None"
  proof -
    from that obtain pa where pa: "nodeMap t parentID = Some pa"
      by auto
    from appendNode_spec [OF inv pa, of v] obtain t' cs where
      res: "appendNode parentID v t = (Inr (nextID t), t')"
      and fresh: "nodeMap t (nextID t) = None"
      and m': "nodeMap t' = (nodeMap t)(nextID t \<mapsto> new_addr t)"
      and rest: "length (live t') = Suc (length (live t))" "getRootID t' = getRootID t"
        "getValue (nextID t) t' = Inr v" "getChildrenIDs (nextID t) t' = Inr []"
        "getChildrenIDs parentID t = Inr cs" "getChildrenIDs parentID t' = Inr (cs @ [nextID t])"
      and frame: "\<forall>j. nodeMap t j \<noteq> None \<longrightarrow>
                 getValue j t' = getValue j t
                 \<and> (j \<noteq> parentID \<longrightarrow> getChildrenIDs j t' = getChildrenIDs j t)"
      by blast
    have "dom (nodeMap t') = insert (nextID t) (dom (nodeMap t))"
      by (simp add: m')
    moreover have "nodeMap t' j = nodeMap t j \<and> getValue j t' = getValue j t
                   \<and> (j \<noteq> parentID \<longrightarrow> getChildrenIDs j t' = getChildrenIDs j t)"
      if "j \<in> dom (nodeMap t)" for j
      using that frame fresh by (auto simp: m')
    ultimately show ?thesis
      using res fresh rest by blast
  qed
  from absent_case live_case show ?thesis
    by blast
qed

lemma run_appendNode_scenario:
  "appendNode 999 ''G'' (run []) = (Inl NodeNotFound, run [])
   \<and> fst (appendNode 0 ''G'' scenario_tree) = Inr 6
   \<and> getChildrenIDs 0 (snd (appendNode 0 ''G'' scenario_tree)) = Inr [1, 2, 3, 6]
   \<and> getValue 6 (snd (appendNode 0 ''G'' scenario_tree)) = Inr ''G''
   \<and> getValue 1 (snd (appendNode 0 ''G'' scenario_tree)) = Inr ''B''
   \<and> getChildrenIDs 1 (snd (appendNode 0 ''G'' scenario_tree)) = Inr [4, 5]"
proof -
  have t: "scenario_tree = run scenario_calls"
    by (simp add: scenario_tree_def)
  have empty: "nodeMap (run [] :: string Tree) 999 = None"
    by (simp add: run_def empty_Tree_def)
  have live: "nodeMap scenario_tree 0 \<noteq> None" "1 \<in> dom (nodeMap scenario_tree)"
    and nxt: "nextID scenario_tree = 6"
    and kids: "getChildrenIDs 0 scenario_tree = Inr [1, 2, 3]"
      "getChildrenIDs 1 scenario_tree = Inr [4, 5]"
    and v1: "getValue 1 scenario_tree = Inr ''B''"
    by code_simp+
  from run_appendNode [OF refl, of "[]" 999 "''G''"] empty
  have 1: "appendNode 999 ''G'' (run []) = (Inl NodeNotFound, run [])"
    by simp
  from run_appendNode [OF t, of 0 "''G''"] live(1) obtain t' cs where
    res: "appendNode 0 ''G'' scenario_tree = (Inr (nextID scenario_tree), t')"
    and new: "getValue (nextID scenario_tree) t' = Inr ''G''"
    and cs: "getChildrenIDs 0 scenario_tree = Inr cs"
      "getChildrenIDs 0 t' = Inr (cs @ [nextID scenario_tree])"
    and frame: "\<forall>j \<in> dom (nodeMap scenario_tree).
                   nodeMap t' j = nodeMap scenario_tree j \<and> getValue j t' = getValue j scenario_tree
                   \<and> (j \<noteq> 0 \<longrightarrow> getChildrenIDs j t' = getChildrenIDs j scenario_tree)"
    by auto
  from frame live(2) have "getValue 1 t' = getValue 1 scenario_tree"
    and "getChildrenIDs 1 t' = getChildrenIDs 1 scenario_tree"
    by auto
  with 1 res new cs kids v1 show ?thesis
    by (simp add: nxt)
qed

section \<open>The id counter at 32 bits\<close>

subsection \<open>Before the counter wraps\<close>

text \<open>
  Every call moves the counter by at most one, so the operations at 32 bits and the
  operations on unbounded integers do the same as long as fewer than \<open>2^31\<close> calls
  have been made.
\<close>

lemma int32_small: "- 2147483648 \<le> x \<Longrightarrow> x < 2147483648 \<Longrightarrow> int32 x = x"
  by (simp add: int32_def)

lemma nextID_perform: "nextID t \<le> nextID (perform t c) \<and> nextID (perform t c) \<le> nextID t + 1"
  by (cases c) (simp_all add: setRoot_def appendNode_def removeNode_def Let_def split: option.split)

lemma perform32_perform:
  assumes "0 \<le> nextID t" and "nextID t < 2147483647"
  shows "perform32 t c = perform t c"
proof -
  from assms have "int32 (nextID t + 1) = nextID t + 1"
    by (intro int32_small) simp_all
  then show ?thesis
    by (cases c) (simp_all add: setRoot32_def setRoot_def appendNode32_def appendNode_def
        split: option.split)
qed

lemma foldl_perform32:
  "0 \<le> nextID t \<Longrightarrow> nextID t + int (length calls) \<le> 2147483647 \<Longrightarrow>
     foldl perform32 t calls = foldl perform t calls"
proof (induction calls arbitrary: t)
  case Nil
  show ?case by simp
next
  case (Cons c calls)
  from Cons.prems have "perform32 t c = perform t c"
    by (intro perform32_perform) simp_all
  moreover have "foldl perform32 (perform t c) calls = foldl perform (perform t c) calls"
    using Cons.prems nextID_perform [of t c] by (intro Cons.IH) simp_all
  ultimately show ?case
    by simp
qed

lemma run32_run: "length calls < 2147483648 \<Longrightarrow> run32 calls = run calls"
  unfolding run32_def run_def by (rule foldl_perform32) (simp_all add: empty_Tree_def)

lemma nextID_foldl:
  "nextID t \<le> nextID (foldl perform t calls)
   \<and> nextID (foldl perform t calls) \<le> nextID t + int (length calls)"
proof (induction calls arbitrary: t)
  case Nil
  show ?case by simp
next
  case (Cons c calls)
  from Cons.IH [of "perform t c"] nextID_perform [of t c] show ?case
    by simp
qed

lemma nextID_run: "0 \<le> nextID (run calls) \<and> nextID (run calls) \<le> int (length calls)"
  using nextID_foldl [of empty_Tree calls] by (simp add: run_def empty_Tree_def)

text \<open>
  So the three lemmas of the last section hold of the code with its counter at 32
  bits for every sequence of fewer than \<open>2^31 - 1\<close> calls.
\<close>

lemma index_before_wrap:
  assumes "t = run32 calls" and "length calls < 2147483647"
  shows "dom (nodeMap t) = set (map ID (live t))
     \<and> (\<forall>n \<in> set (live t). nodeMap t (ID n) = Some (addr n) \<and> deref t (addr n) = Some n)
     \<and> distinct (map ID (live t))
     \<and> (\<forall>nodeID. nodeID \<noteq> getRootID t \<longrightarrow>
          dom (nodeMap (run32 (calls @ [RemoveNode nodeID])))
            = dom (nodeMap t) - set (subtree_ids t nodeID)
          \<and> set (map ID (live (run32 (calls @ [RemoveNode nodeID]))))
            = set (map ID (live t)) - set (subtree_ids t nodeID))"
proof -
  from assms have t: "t = run calls"
    by (simp add: run32_run)
  have "run32 (calls @ [RemoveNode nodeID]) = run (calls @ [RemoveNode nodeID])" for nodeID
    using assms(2) by (intro run32_run) simp
  with run_index [OF t] show ?thesis
    by simp
qed

lemma removeNode_before_wrap:
  assumes "t = run32 calls" and "length calls < 2147483648"
  shows "(nodeID = getRootID t \<longrightarrow> removeNode nodeID t = (Inl CannotRemoveRoot, t))
     \<and> (nodeID \<noteq> getRootID t \<and> nodeMap t nodeID = None \<longrightarrow>
          removeNode nodeID t = (Inl NodeNotFound, t))
     \<and> (\<forall>e. fst (removeNode nodeID t) = Inl e \<longrightarrow>
          snd (removeNode nodeID t) = t \<and> (e = CannotRemoveRoot \<or> e = NodeNotFound))
     \<and> (nodeID \<noteq> getRootID t \<and> nodeMap t nodeID \<noteq> None \<longrightarrow>
          (\<exists>t' pid cs. removeNode nodeID t = (Inr (), t')
             \<and> nodeID \<in> set (subtree_ids t nodeID)
             \<and> (\<forall>j \<in> set (subtree_ids t nodeID).
                   nodeMap t' j = None \<and> getValue j t' = Inl NodeNotFound
                   \<and> getChildrenIDs j t' = Inl NodeNotFound)
             \<and> nodeID \<in> set cs \<and> nodeID \<notin> set (remove1 nodeID cs)
             \<and> getChildrenIDs pid t = Inr cs
             \<and> getChildrenIDs pid t' = Inr (remove1 nodeID cs)))"
proof -
  from assms have "t = run calls"
    by (simp add: run32_run)
  then show ?thesis
    by (rule run_removeNode)
qed

lemma appendNode32_before_wrap:
  assumes "t = run32 calls" and "length calls < 2147483647"
  shows "(nodeMap t parentID = None \<longrightarrow> appendNode32 parentID v t = (Inl NodeNotFound, t))
     \<and> (nodeMap t parentID \<noteq> None \<longrightarrow>
          (\<exists>t' cs. appendNode32 parentID v t = (Inr (nextID t), t')
             \<and> nodeMap t (nextID t) = None
             \<and> dom (nodeMap t') = insert (nextID t) (dom (nodeMap t))
             \<and> length (live t') = Suc (length (live t))
             \<and> getValue (nextID t) t' = Inr v
             \<and> getChildrenIDs (nextID t) t' = Inr []
             \<and> getChildrenIDs parentID t = Inr cs
             \<and> getChildrenIDs parentID t' = Inr (cs @ [nextID t])
             \<and> getRootID t' = getRootID t
             \<and> (\<forall>j \<in> dom (nodeMap t).
                   nodeMap t' j = nodeMap t j \<and> getValue j t' = getValue j t
                   \<and> (j \<noteq> parentID \<longrightarrow> getChildrenIDs j t' = getChildrenIDs j t))))"
proof -
  from assms have t: "t = run calls"
    by (simp add: run32_run)
  from nextID_run [of calls] assms(2) have "0 \<le> nextID t" and "nextID t < 2147483647"
    unfolding t by simp_all
  then have "perform32 t (AppendNode parentID v) = perform t (AppendNode parentID v)"
    by (rule perform32_perform)
  moreover have "fst (appendNode32 parentID v t) = fst (appendNode parentID v t)"
    using \<open>0 \<le> nextID t\<close> \<open>nextID t < 2147483647\<close>
    by (simp add: appendNode32_def appendNode_def int32_small split: option.split)
  ultimately have "appendNode32 parentID v t = appendNode parentID v t"
    by (simp add: prod_eq_iff)
  with run_appendNode [OF t, of parentID v] show ?thesis
    by simp
qed

subsection \<open>After \<open>2^32\<close> insertions\<close>

lemma int32_Suc: "int32 (int32 (int j) + 1) = int32 (int (Suc j))"
  by (simp add: int32_def mod_simps algebra_simps)

lemma int32_nonzero:
  assumes "0 < j" and "j < 4294967296"
  shows "int32 (int j) \<noteq> 0"
proof (cases "j < 2147483648")
  case True
  then have "(int j + 2147483648) mod 4294967296 = int j + 2147483648"
    by simp
  with assms(1) show ?thesis
    by (simp add: int32_def)
next
  case False
  have "(int j + 2147483648) mod 4294967296 = (int j + 2147483648 - 4294967296) mod 4294967296"
    by (simp only: minus_mod_self2)
  also have "\<dots> = int j - 2147483648"
    using False assms(2) by simp
  finally show ?thesis
    using assms(2) by (simp add: int32_def)
qed

text \<open>One turn: the child gets the id at the counter, and its removal leaves the root alone.\<close>

lemma churn_turn:
  assumes "int32 (int j) \<noteq> 0"
  shows "perform32 (perform32 (root_only j) (AppendNode 0 ''x'')) (RemoveNode (int32 (int j)))
           = root_only (Suc j)"
  using assms
  by (simp add: root_only_def appendNode32_def deref_def live_def new_addr_def
      removeNode_def getRootID_def int32_Suc)

lemma churn_run:
  "(\<forall>i. j \<le> i \<and> i < j + n \<longrightarrow> int32 (int i) \<noteq> 0) \<Longrightarrow>
     foldl perform32 (root_only j) (churn n j) = root_only (j + n)"
proof (induction n arbitrary: j)
  case 0
  show ?case by simp
next
  case (Suc n)
  have "int32 (int j) \<noteq> 0"
    using Suc.prems by simp
  then have "foldl perform32 (root_only j) (churn (Suc n) j)
               = foldl perform32 (root_only (Suc j)) (churn n (Suc j))"
    by (simp add: churn_turn del: perform32.simps)
  also have "\<dots> = root_only (Suc j + n)"
    using Suc.prems by (intro Suc.IH) simp
  finally show ?case by simp
qed

text \<open>
  After \<open>wrap_prefix\<close> the root is alone again, \<open>2^32\<close> ids have been given out, and the
  counter is back at 0, the id of the root.
\<close>

lemma wrap_prefix_state: "run32 wrap_prefix = root_only 4294967296"
proof -
  have "perform32 empty_Tree (SetRoot ''R'') = root_only 1"
    by (simp add: setRoot32_def empty_Tree_def root_only_def new_addr_def live_def int32_def)
  moreover have "foldl perform32 (root_only 1) (churn 4294967295 1) = root_only (1 + 4294967295)"
    by (rule churn_run) (simp add: int32_nonzero)
  ultimately show ?thesis
    by (simp add: run32_def wrap_prefix_def del: perform32.simps)
qed

lemma wrap_prefix_tree:
  "run32 wrap_prefix =
     \<lparr>root = Some (Node 0 ''R'' None [] 0), nodeMap = [0 \<mapsto> 0], nextID = 0\<rparr>"
  by (simp add: wrap_prefix_state root_only_def int32_def)

lemma wrap_calls_tree:
  "run32 wrap_calls =
     \<lparr>root = Some (Node 0 ''R'' None [Node 1 ''X'' (Some 0) [] 0] 0), nodeMap = [0 \<mapsto> 1],
      nextID = 1\<rparr>"
  by (simp add: run32_def wrap_calls_def wrap_prefix_tree [unfolded run32_def]
      appendNode32_def deref_def live_def new_addr_def int32_def)

text \<open>
  C3. The ids are not pairwise different after every sequence of calls, and the index
  does not always lead to every reachable node. After \<open>wrap_calls\<close> (set the root "R",
  append and remove a child \<open>2^32 - 1\<close> times, append "X") the tree has two nodes, the
  root "R" and its child "X", and both have the id 0. \<open>nodeMap\<close> maps 0 to the address
  of "X" (\<open>nodeMap[node->ID] = node\<close> has overwritten the entry of the root), so the
  root is not to be found through the index: \<open>getValue(0)\<close> is "X", and
  \<open>getChildrenIDs(0)\<close> is the empty list of the children of "X".
\<close>

theorem wrapped_counter_gives_out_the_id_of_the_root:
  "map val (live (run32 wrap_calls)) = [''R'', ''X'']
   \<and> map ID (live (run32 wrap_calls)) = [0, 0]
   \<and> \<not> distinct (map ID (live (run32 wrap_calls)))
   \<and> map addr (live (run32 wrap_calls)) = [0, 1]
   \<and> nodeMap (run32 wrap_calls) 0 = Some 1
   \<and> getValue 0 (run32 wrap_calls) = Inr ''X''
   \<and> getChildrenIDs 0 (run32 wrap_calls) = Inr []"
  by (simp add: wrap_calls_tree live_def getValue_def getChildrenIDs_def deref_def)


text \<open>
  C7. \<open>appendNode\<close> does not always give the new node an id that is not in use. After
  \<open>wrap_prefix\<close> (set the root "R", append and remove a child \<open>2^32 - 1\<close> times) the
  root is the only node, it has the id 0, and \<open>nextID\<close> is 0 again. \<open>appendNode(0, "X")\<close>
  then returns 0: the new node has the id of the root. What the accessors give for
  the id 0, which was in the index before the call, has changed: \<open>getValue(0)\<close> was "R"
  and is "X", and \<open>getChildrenIDs(0)\<close> is still empty although the root has got a child.
\<close>

theorem appendNode32_returns_the_id_of_the_root:
  "map ID (live (run32 wrap_prefix)) = [0]
   \<and> nextID (run32 wrap_prefix) = 0
   \<and> getValue 0 (run32 wrap_prefix) = Inr ''R''
   \<and> getChildrenIDs 0 (run32 wrap_prefix) = Inr []
   \<and> fst (appendNode32 0 ''X'' (run32 wrap_prefix)) = Inr 0
   \<and> map ID (live (snd (appendNode32 0 ''X'' (run32 wrap_prefix)))) = [0, 0]
   \<and> map (\<lambda>n. length (children n)) (live (snd (appendNode32 0 ''X'' (run32 wrap_prefix))))
       = [1, 0]
   \<and> getValue 0 (snd (appendNode32 0 ''X'' (run32 wrap_prefix))) = Inr ''X''
   \<and> getChildrenIDs 0 (snd (appendNode32 0 ''X'' (run32 wrap_prefix))) = Inr []"
  by (simp add: wrap_prefix_tree live_def getValue_def getChildrenIDs_def deref_def
      appendNode32_def new_addr_def int32_def)

section \<open>Reading back what serialize wrote\<close>

declare decimal.simps [simp del] getlines.simps [simp del]























section \<open>Rebuilding a tree from its linearization\<close>

































text \<open>
  The single line is needed. A \<open>std::string\<close> value with a newline passes the check of
  the constructors and is taken back as it is from the rest of a line, but \<open>serialize\<close>
  spreads it over two lines: reading the text back reports a malformed line and
  returns a tree with the first line of the value at the root.
\<close>

lemma newline_in_value_is_not_restored:
  "reads_back string_payload ''a\<newline>b''
   \<and> fst (deserialize string_payload
           (serialize string_payload (snd (setRoot ''a\<newline>b'' empty_Tree))))
       = Some MalformedLine
   \<and> map_sum id (\<lambda>t. map val (live t))
         (snd (deserialize string_payload
                (serialize string_payload (snd (setRoot ''a\<newline>b'' empty_Tree)))))
       = Inr [''a'']"
  by code_simp

end
